theory Spec2Isabelle
  imports Complex_Main "HOL-Library.Word"
begin

unbundle bit_operations_syntax

section \<open>SSM-ClockKe v2.1: alignment kernel, band classifier and stamp chain\<close>

text \<open>
  The three scripts \<^verbatim>\<open>clockke_run_v2_1.py\<close>, \<^verbatim>\<open>clockke_desktop_v2_1.py\<close> and
  \<^verbatim>\<open>clockke_verify_v2_1.py\<close> share one numeric kernel and one stamp rule. Conventions of
  this development:
  \<^item> Python floats are idealised as \<open>real\<close>: the arithmetic of the kernel is read as exact
    arithmetic, \<open>math.log1p x\<close> as \<open>ln (1 + x)\<close> and \<open>math.tanh\<close> as \<open>tanh\<close>. Rounding
    error of the double format is outside the model.
  \<^item> Python text is \<open>string\<close>; a \<open>char\<close> is a code point below 256, which covers every
    string the engine itself writes (timestamps, decimal numbers, band labels, hexadecimal
    digests are ASCII).
  \<^item> What the scripts read from their environment (the wall clock, the formatted UTC time,
    the draw of the random source, the widgets) is an explicit input of the model.
  \<^item> \<open>hashlib.sha256\<close> is the library's SHA-256 (FIPS 180-4), written out below on
    bytes so that the stamp rule is a closed, executable function.
\<close>

subsection \<open>SHA-256 (the function behind \<open>hashlib.sha256\<close>)\<close>

type_synonym byte = "8 word"
type_synonym u32 = "32 word"
type_synonym hstate = "u32 \<times> u32 \<times> u32 \<times> u32 \<times> u32 \<times> u32 \<times> u32 \<times> u32"

text \<open>
  The 64 round constants and the initial hash value of FIPS 180-4, sections 4.2.2 and 5.3.3,
  as decimal numerals (the first is \<open>0x428a2f98\<close>, the initial value starts with
  \<open>0x6a09e667\<close>).
\<close>

definition K256 :: "u32 list" where
  "K256 =
   [1116352408, 1899447441, 3049323471, 3921009573, 961987163, 1508970993,
    2453635748, 2870763221, 3624381080, 310598401, 607225278, 1426881987,
    1925078388, 2162078206, 2614888103, 3248222580, 3835390401, 4022224774,
    264347078, 604807628, 770255983, 1249150122, 1555081692, 1996064986,
    2554220882, 2821834349, 2952996808, 3210313671, 3336571891, 3584528711,
    113926993, 338241895, 666307205, 773529912, 1294757372, 1396182291,
    1695183700, 1986661051, 2177026350, 2456956037, 2730485921, 2820302411,
    3259730800, 3345764771, 3516065817, 3600352804, 4094571909, 275423344,
    430227734, 506948616, 659060556, 883997877, 958139571, 1322822218,
    1537002063, 1747873779, 1955562222, 2024104815, 2227730452, 2361852424,
    2428436474, 2756734187, 3204031479, 3329325298]"

definition H256_init :: hstate where
  "H256_init = (1779033703, 3144134277, 1013904242, 2773480762,
                1359893119, 2600822924, 528734635, 1541459225)"

definition rotr :: "nat \<Rightarrow> u32 \<Rightarrow> u32" where
  "rotr n x = drop_bit n x OR push_bit (32 - n) x"

definition big_sigma0 :: "u32 \<Rightarrow> u32" where
  "big_sigma0 x = rotr 2 x XOR rotr 13 x XOR rotr 22 x"

definition big_sigma1 :: "u32 \<Rightarrow> u32" where
  "big_sigma1 x = rotr 6 x XOR rotr 11 x XOR rotr 25 x"

definition small_sigma0 :: "u32 \<Rightarrow> u32" where
  "small_sigma0 x = rotr 7 x XOR rotr 18 x XOR drop_bit 3 x"

definition small_sigma1 :: "u32 \<Rightarrow> u32" where
  "small_sigma1 x = rotr 17 x XOR rotr 19 x XOR drop_bit 10 x"

definition ch :: "u32 \<Rightarrow> u32 \<Rightarrow> u32 \<Rightarrow> u32" where
  "ch x y z = (x AND y) XOR (NOT x AND z)"

definition maj :: "u32 \<Rightarrow> u32 \<Rightarrow> u32 \<Rightarrow> u32" where
  "maj x y z = (x AND y) XOR (x AND z) XOR (y AND z)"

fun sha_round :: "hstate \<Rightarrow> u32 \<times> u32 \<Rightarrow> hstate" where
  "sha_round (a, b, c, d, e, f, g, h) (k, w) =
     (let t1 = h + big_sigma1 e + ch e f g + k + w;
          t2 = big_sigma0 a + maj a b c
      in (t1 + t2, a, b, c, d + t1, e, f, g))"

fun sched_ext :: "nat \<Rightarrow> u32 list \<Rightarrow> u32 list" where
  "sched_ext 0 ws = ws"
| "sched_ext (Suc n) ws =
     (let l = length ws
      in sched_ext n (ws @ [small_sigma1 (ws ! (l - 2)) + ws ! (l - 7)
                            + small_sigma0 (ws ! (l - 15)) + ws ! (l - 16)]))"

fun hstate_add :: "hstate \<Rightarrow> hstate \<Rightarrow> hstate" where
  "hstate_add (a, b, c, d, e, f, g, h) (a', b', c', d', e', f', g', h') =
     (a + a', b + b', c + c', d + d', e + e', f + f', g + g', h + h')"

definition compress :: "hstate \<Rightarrow> u32 list \<Rightarrow> hstate" where
  "compress hs blk = hstate_add hs (foldl sha_round hs (zip K256 (sched_ext 48 blk)))"

definition be32 :: "byte list \<Rightarrow> u32" where
  "be32 bs = foldl (\<lambda>acc b. push_bit 8 acc OR ucast b) 0 bs"

definition block_words :: "byte list \<Rightarrow> u32 list" where
  "block_words blk = map (\<lambda>i. be32 (take 4 (drop (4 * i) blk))) [0..<16]"

fun chunk64 :: "byte list \<Rightarrow> byte list list" where
  "chunk64 bs = (if bs = [] then [] else take 64 bs # chunk64 (drop 64 bs))"

declare chunk64.simps [simp del]

definition be64_bytes :: "nat \<Rightarrow> byte list" where
  "be64_bytes n = (let w = (word_of_nat n :: 64 word)
     in map (\<lambda>i. ucast (drop_bit (8 * (7 - i)) w)) [0..<8])"

definition sha_pad :: "byte list \<Rightarrow> byte list" where
  "sha_pad msg = msg @ [0x80] @ replicate ((64 - (length msg + 9) mod 64) mod 64) 0
                 @ be64_bytes (8 * length msg)"

definition word_bytes :: "u32 \<Rightarrow> byte list" where
  "word_bytes w = [ucast (drop_bit 24 w), ucast (drop_bit 16 w), ucast (drop_bit 8 w), ucast w]"

fun digest_bytes :: "hstate \<Rightarrow> byte list" where
  "digest_bytes (a, b, c, d, e, f, g, h) = concat (map word_bytes [a, b, c, d, e, f, g, h])"

definition sha256 :: "byte list \<Rightarrow> byte list" where
  "sha256 msg = digest_bytes (foldl compress H256_init (map block_words (chunk64 (sha_pad msg))))"

definition hex_chars :: string where
  "hex_chars = ''0123456789abcdef''"

definition hex_digit :: "nat \<Rightarrow> char" where
  "hex_digit n = hex_chars ! n"

definition hex_of_byte :: "byte \<Rightarrow> string" where
  "hex_of_byte b = [hex_digit (unat b div 16), hex_digit (unat b mod 16)]"

definition hexdigest :: "byte list \<Rightarrow> string" where
  "hexdigest bs = concat (map hex_of_byte bs)"

subsection \<open>Text encoding\<close>

text \<open>\<open>str.encode("utf-8")\<close>: one byte below U+0080, two bytes from U+0080 to U+00FF.\<close>

definition utf8_char :: "char \<Rightarrow> byte list" where
  "utf8_char c =
     (let n = (of_char c :: nat)
      in if n < 128 then [of_nat n] else [of_nat (192 + n div 64), of_nat (128 + n mod 64)])"

definition encode_utf8 :: "string \<Rightarrow> byte list" where
  "encode_utf8 s = concat (map utf8_char s)"

subsection \<open>The stamp rule\<close>

text \<open>
  \<^verbatim>\<open>make_stamp(prev_stamp, payload_str, time_utc_str)\<close>, identical in the three scripts.
  \<open>prev_stamp or ""\<close> replaces an empty (falsy) string by the empty string.
\<close>

definition make_stamp :: "string \<Rightarrow> string \<Rightarrow> string \<Rightarrow> string" where
  "make_stamp prev_stamp payload_str time_utc_str =
     (let payload_bytes = encode_utf8 payload_str;
          h_payload = encode_utf8 (hexdigest (sha256 payload_bytes));
          prev_bytes = encode_utf8 (if prev_stamp = [] then [] else prev_stamp);
          time_bytes = encode_utf8 time_utc_str;
          raw = prev_bytes @ h_payload @ time_bytes
      in hexdigest (sha256 raw))"

text \<open>
  The rule in the words of the specification:
  \<open>stamp = SHA256(bytes(prev_stamp) ++ hex(SHA256(bytes(payload))) ++ bytes(time_utc))\<close>.
  The inner digest enters as its hexadecimal text, one ASCII byte per hexadecimal digit.
\<close>

definition hex_text_bytes :: "byte list \<Rightarrow> byte list" where
  "hex_text_bytes digest = map of_char (hexdigest digest)"

definition stamp_preimage :: "string \<Rightarrow> string \<Rightarrow> string \<Rightarrow> byte list" where
  "stamp_preimage prev_stamp payload time_utc =
     encode_utf8 prev_stamp @ hex_text_bytes (sha256 (encode_utf8 payload)) @ encode_utf8 time_utc"

definition stamp_spec :: "string \<Rightarrow> string \<Rightarrow> string \<Rightarrow> string" where
  "stamp_spec prev_stamp payload time_utc = hexdigest (sha256 (stamp_preimage prev_stamp payload time_utc))"

definition lower_hex :: "char set" where
  "lower_hex = set hex_chars"

subsection \<open>Facts about digests and stamps\<close>

lemma length_digest_bytes: "length (digest_bytes hs) = 32"
  by (cases hs rule: digest_bytes.cases) (simp add: word_bytes_def)

lemma length_sha256: "length (sha256 msg) = 32"
  by (simp add: sha256_def length_digest_bytes)

lemma length_hexdigest: "length (hexdigest bs) = 2 * length bs"
  by (induction bs) (simp_all add: hexdigest_def hex_of_byte_def)

lemma hex_digit_lower: "n < 16 \<Longrightarrow> hex_digit n \<in> lower_hex"
proof -
  assume "n < 16"
  then have "n < length hex_chars"
    by (simp add: hex_chars_def)
  then show ?thesis
    unfolding hex_digit_def lower_hex_def by (rule nth_mem)
qed

lemma hex_of_byte_lower: "set (hex_of_byte b) \<subseteq> lower_hex"
proof -
  have "unat b < 256"
    using unsigned_less [of b] by simp
  then have "unat b div 16 < 16"
    by simp
  then show ?thesis
    by (simp add: hex_of_byte_def hex_digit_lower)
qed

lemma hexdigest_lower: "set (hexdigest bs) \<subseteq> lower_hex"
  using hex_of_byte_lower by (auto simp: hexdigest_def)

lemma lower_hex_ascii: "c \<in> lower_hex \<Longrightarrow> (of_char c :: nat) < 128"
  by (auto simp: lower_hex_def hex_chars_def)

lemma utf8_hex_text: "set s \<subseteq> lower_hex \<Longrightarrow> encode_utf8 s = map of_char s"
proof (induction s)
  case Nil
  then show ?case by (simp add: encode_utf8_def)
next
  case (Cons c s)
  then have "(of_char c :: nat) < 128"
    by (simp add: lower_hex_ascii)
  with Cons show ?case
    by (simp add: encode_utf8_def utf8_char_def of_nat_of_char)
qed

lemma utf8_hexdigest: "encode_utf8 (hexdigest bs) = hex_text_bytes bs"
  by (simp add: hex_text_bytes_def utf8_hex_text hexdigest_lower)

lemma make_stamp_eq_spec: "make_stamp prev payload t_utc = stamp_spec prev payload t_utc"
  by (simp add: make_stamp_def stamp_spec_def stamp_preimage_def utf8_hexdigest)

lemma length_make_stamp: "length (make_stamp prev payload t_utc) = 64"
  by (simp add: make_stamp_def length_hexdigest length_sha256)

lemma make_stamp_lower: "set (make_stamp prev payload t_utc) \<subseteq> lower_hex"
  by (simp add: make_stamp_def hexdigest_lower)

text \<open>
  C1. For all strings \<open>prev_stamp\<close> (the empty one included), \<open>payload\<close> and \<open>time_utc\<close>,
  \<open>make_stamp\<close> returns the SHA-256 of the UTF-8 bytes of \<open>prev_stamp\<close>, followed by the
  lowercase hexadecimal text of the SHA-256 of the UTF-8 bytes of the payload, followed by the
  UTF-8 bytes of \<open>time_utc\<close>. The result has 64 characters, all of them lowercase
  hexadecimal digits, and the inner digest takes 64 bytes of the hashed message (its text),
  not the 32 bytes of the raw digest.
\<close>

theorem make_stamp_double_hash:
  "make_stamp prev payload t_utc =
     hexdigest (sha256 (encode_utf8 prev
                        @ hex_text_bytes (sha256 (encode_utf8 payload))
                        @ encode_utf8 t_utc))
   \<and> length (make_stamp prev payload t_utc) = 64
   \<and> set (make_stamp prev payload t_utc) \<subseteq> lower_hex
   \<and> length (hex_text_bytes (sha256 (encode_utf8 payload))) = 64
   \<and> length (sha256 (encode_utf8 payload)) = 32
   \<and> length (stamp_preimage prev payload t_utc)
       = length (encode_utf8 prev) + 64 + length (encode_utf8 t_utc)"
proof -
  let ?s = "make_stamp prev payload t_utc"
  have inner: "length (hex_text_bytes (sha256 (encode_utf8 payload))) = 64"
    by (simp add: hex_text_bytes_def length_hexdigest length_sha256)
  have rule: "?s = hexdigest (sha256 (encode_utf8 prev
                        @ hex_text_bytes (sha256 (encode_utf8 payload))
                        @ encode_utf8 t_utc))"
    using make_stamp_eq_spec [of prev payload t_utc]
    by (simp add: stamp_spec_def stamp_preimage_def)
  have len: "length ?s = 64"
    by (rule length_make_stamp)
  have hex: "set ?s \<subseteq> lower_hex"
    by (rule make_stamp_lower)
  have raw: "length (sha256 (encode_utf8 payload)) = 32"
    by (rule length_sha256)
  have pre: "length (stamp_preimage prev payload t_utc)
       = length (encode_utf8 prev) + 64 + length (encode_utf8 t_utc)"
    by (simp add: stamp_preimage_def inner)
  from rule len hex inner raw pre show ?thesis
    by blast
qed


section \<open>The numeric kernel\<close>

subsection \<open>Manifest parameters\<close>

definition EPS_A :: real where "EPS_A = 1 / 10 ^ 6"
definition EPS_W :: real where "EPS_W = 1 / 10 ^ 9"
definition W_DEFAULT :: real where "W_DEFAULT = 1"
definition DECAY_W :: real where "DECAY_W = 995 / 1000"
definition BASELINE_A :: real where "BASELINE_A = 2 / 100"
definition JITTER_GAIN :: real where "JITTER_GAIN = 15 / 100"
definition FREEZE_MULT :: real where "FREEZE_MULT = 15 / 10"
definition FREEZE_PENALTY :: real where "FREEZE_PENALTY = 5 / 100"
definition NOISE_AMPL :: real where "NOISE_AMPL = 1 / 100"

datatype error = ValueError | KeyError string | AttributeError

subsection \<open>Alignment source\<close>

text \<open>
  \<^verbatim>\<open>source_a_raw(now_epoch, dt_ms, tick_ms, a_stress, rng_obj)\<close> of the desktop script. The
  one draw \<open>rng_obj.uniform(-1.0, 1.0)\<close> is the argument \<open>noise_unit\<close>.
\<close>

definition source_a_raw :: "real \<Rightarrow> real \<Rightarrow> real \<Rightarrow> real \<Rightarrow> real \<Rightarrow> real" where
  "source_a_raw now_epoch dt_ms tick_ms a_stress noise_unit =
     (let jitter = (if dt_ms \<le> 0 \<or> tick_ms \<le> 0 then 0
                    else (dt_ms - tick_ms) / max tick_ms 1);
          base0 = BASELINE_A + a_stress;
          jitter_term = - JITTER_GAIN * jitter;
          base = (if tick_ms > 0 \<and> dt_ms > FREEZE_MULT * tick_ms then base0 - FREEZE_PENALTY
                  else base0);
          noise_term = NOISE_AMPL * noise_unit
      in base + jitter_term + noise_term)"

text \<open>
  \<^verbatim>\<open>source_a_raw(now_epoch, dt_ms, tick_ms, rng_obj)\<close> of the command-line script: the same
  body with \<open>base = BASELINE_A\<close> and no stress argument.
\<close>

definition source_a_raw_cli :: "real \<Rightarrow> real \<Rightarrow> real \<Rightarrow> real \<Rightarrow> real" where
  "source_a_raw_cli now_epoch dt_ms tick_ms noise_unit =
     (let jitter = (if dt_ms \<le> 0 \<or> tick_ms \<le> 0 then 0
                    else (dt_ms - tick_ms) / max tick_ms 1);
          base0 = BASELINE_A;
          jitter_term = - JITTER_GAIN * jitter;
          base = (if tick_ms > 0 \<and> dt_ms > FREEZE_MULT * tick_ms then base0 - FREEZE_PENALTY
                  else base0);
          noise_term = NOISE_AMPL * noise_unit
      in base + jitter_term + noise_term)"

text \<open>The alignment source in the words of the specification (section 4.1, steps 1 to 6).\<close>

definition jitter_spec :: "real \<Rightarrow> real \<Rightarrow> real" where
  "jitter_spec dt_ms tick_ms =
     (if dt_ms \<le> 0 \<or> tick_ms \<le> 0 then 0 else (dt_ms - tick_ms) / max tick_ms 1)"

definition source_spec :: "real \<Rightarrow> real \<Rightarrow> real \<Rightarrow> real \<Rightarrow> real" where
  "source_spec dt_ms tick_ms a_stress u =
     ((2 / 100 + a_stress) - (if dt_ms > (15 / 10) * tick_ms then 5 / 100 else 0))
     + (- (15 / 100) * jitter_spec dt_ms tick_ms)
     + (1 / 100) * u"

text \<open>The same with the freeze penalty guarded by a positive cadence, as the scripts have it.\<close>

definition source_guarded :: "real \<Rightarrow> real \<Rightarrow> real \<Rightarrow> real \<Rightarrow> real" where
  "source_guarded dt_ms tick_ms a_stress u =
     ((2 / 100 + a_stress) - (if tick_ms > 0 \<and> dt_ms > (15 / 10) * tick_ms then 5 / 100 else 0))
     + (- (15 / 100) * jitter_spec dt_ms tick_ms)
     + (1 / 100) * u"

subsection \<open>Clamp, transform, accumulate\<close>

definition clamp_a :: "real \<Rightarrow> real" where
  "clamp_a a =
     (let lo = - 1 + EPS_A; hi = 1 - EPS_A
      in if a < lo then lo else if a > hi then hi else a)"

text \<open>\<open>math.log1p\<close> raises \<open>ValueError\<close> at and below \<open>-1\<close>.\<close>

definition log1p :: "real \<Rightarrow> error + real" where
  "log1p x = (if x \<le> - 1 then Inl ValueError else Inr (ln (1 + x)))"

definition atanh_safe :: "real \<Rightarrow> error + real" where
  "atanh_safe x =
     (case log1p x of
        Inl e \<Rightarrow> Inl e
      | Inr a \<Rightarrow> (case log1p (- x) of
                    Inl e \<Rightarrow> Inl e
                  | Inr b \<Rightarrow> Inr (0.5 * (a - b))))"

definition floor_denom :: "real \<Rightarrow> real" where
  "floor_denom w = (if w > EPS_W then w else EPS_W)"

text \<open>
  Steps 2 of \<open>tick\<close> and of the loop of \<open>run_clockke_cli\<close>: clamp, transform, update
  \<open>(U, W)\<close>, divide, \<open>tanh\<close>. The manifest constants \<open>DECAY_W\<close> and \<open>W_DEFAULT\<close> are
  the arguments \<open>decay\<close> and \<open>weight\<close>; the result is \<open>a_out\<close> with the new \<open>(U, W)\<close>.
\<close>

definition kernel_step :: "real \<Rightarrow> real \<Rightarrow> real \<times> real \<Rightarrow> real \<Rightarrow> error + (real \<times> real \<times> real)" where
  "kernel_step decay weight uw a_raw =
     (let a_c = clamp_a a_raw
      in case atanh_safe a_c of
           Inl e \<Rightarrow> Inl e
         | Inr u \<Rightarrow>
             (let u_acc = decay * fst uw + weight * u;
                  w_acc = decay * snd uw + weight;
                  denom = floor_denom w_acc;
                  a_out = tanh (u_acc / denom)
              in Inr (a_out, u_acc, w_acc)))"

text \<open>Successive steps from a state, over a list of raw inputs: the outputs and the last state.\<close>

fun kernel_run :: "real \<Rightarrow> real \<Rightarrow> real \<times> real \<Rightarrow> real list \<Rightarrow> error + (real list \<times> real \<times> real)" where
  "kernel_run decay weight uw [] = Inr ([], uw)"
| "kernel_run decay weight uw (a # as) =
     (case kernel_step decay weight uw a of
        Inl e \<Rightarrow> Inl e
      | Inr (a_out, uw') \<Rightarrow>
          (case kernel_run decay weight uw' as of
             Inl e \<Rightarrow> Inl e
           | Inr (outs, uw'') \<Rightarrow> Inr (a_out # outs, uw'')))"

text \<open>The transformed input of a step: \<open>atanh\<close> of the clamped raw value.\<close>

definition transformed :: "real \<Rightarrow> real" where
  "transformed a_raw = (ln (1 + clamp_a a_raw) - ln (1 - clamp_a a_raw)) / 2"

subsection \<open>Band classifier\<close>

definition classify_band :: "real \<Rightarrow> string" where
  "classify_band a_out =
     (if a_out \<ge> 80 / 100 then ''A+''
      else if a_out \<ge> 40 / 100 then ''A''
      else if a_out \<ge> 10 / 100 then ''B''
      else if a_out \<ge> - (10 / 100) then ''C''
      else ''D'')"

subsection \<open>Alignment source: what the scripts compute\<close>

lemma source_a_raw_guarded:
  "source_a_raw now_epoch dt_ms tick_ms a_stress u = source_guarded dt_ms tick_ms a_stress u"
  by (simp add: source_a_raw_def source_guarded_def jitter_spec_def Let_def BASELINE_A_def
      JITTER_GAIN_def FREEZE_MULT_def FREEZE_PENALTY_def NOISE_AMPL_def)

lemma source_a_raw_cli_guarded:
  "source_a_raw_cli now_epoch dt_ms tick_ms u = source_guarded dt_ms tick_ms 0 u"
  by (simp add: source_a_raw_cli_def source_guarded_def jitter_spec_def Let_def BASELINE_A_def
      JITTER_GAIN_def FREEZE_MULT_def FREEZE_PENALTY_def NOISE_AMPL_def)

text \<open>
  C4, as stated, fails: with \<open>tick_ms = 0\<close> and \<open>dt_ms = 1\<close> the claim subtracts the freeze
  penalty (\<open>1 > 1.5 * 0\<close>) and gives \<open>-0.03\<close>, while \<open>source_a_raw\<close> tests
  \<open>tick_ms > 0.0 and dt_ms > FREEZE_MULT * tick_ms\<close>, applies no penalty and returns \<open>0.02\<close>.
\<close>

theorem source_a_raw_penalty_counterexample:
  "source_a_raw 0 1 0 0 0 = 2 / 100 \<and> source_spec 1 0 0 0 = - (3 / 100)
   \<and> source_a_raw 0 1 0 0 0 \<noteq> source_spec 1 0 0 0"
  by (simp add: source_a_raw_def source_spec_def jitter_spec_def Let_def BASELINE_A_def
      JITTER_GAIN_def FREEZE_MULT_def FREEZE_PENALTY_def NOISE_AMPL_def)

text \<open>
  C4, amended. For all \<open>dt_ms\<close>, \<open>tick_ms\<close>, \<open>a_stress\<close> and draws \<open>u\<close>, the alignment source
  returns \<open>base + jitter_term + noise_term\<close> where \<open>jitter = 0\<close> if \<open>dt_ms \<le> 0\<close> or
  \<open>tick_ms \<le> 0\<close> and otherwise \<open>(dt_ms - tick_ms) / max(tick_ms, 1)\<close>;
  \<open>jitter_term = -0.15 * jitter\<close>; \<open>base = 0.02 + a_stress\<close>, reduced by \<open>0.05\<close> exactly when
  \<open>tick_ms > 0\<close> and \<open>dt_ms > 1.5 * tick_ms\<close>; and \<open>noise_term = 0.01 * u\<close>. The command-line
  script computes the same with \<open>a_stress = 0\<close>, and where the cadence is positive the guard
  makes no difference to the specification's formula.
\<close>

theorem source_a_raw_formula:
  "source_a_raw now_epoch dt_ms tick_ms a_stress u
     = ((2 / 100 + a_stress) - (if tick_ms > 0 \<and> dt_ms > (15 / 10) * tick_ms then 5 / 100 else 0))
       + (- (15 / 100) * (if dt_ms \<le> 0 \<or> tick_ms \<le> 0 then 0 else (dt_ms - tick_ms) / max tick_ms 1))
       + (1 / 100) * u
   \<and> source_a_raw_cli now_epoch dt_ms tick_ms u = source_a_raw now_epoch dt_ms tick_ms 0 u
   \<and> (if tick_ms > 0 then source_a_raw now_epoch dt_ms tick_ms a_stress u = source_spec dt_ms tick_ms a_stress u
       else source_a_raw now_epoch dt_ms tick_ms a_stress u = 2 / 100 + a_stress + (1 / 100) * u)"
proof -
  have a: "source_a_raw now_epoch dt_ms tick_ms a_stress u = source_guarded dt_ms tick_ms a_stress u"
    by (rule source_a_raw_guarded)
  have b: "source_a_raw_cli now_epoch dt_ms tick_ms u = source_a_raw now_epoch dt_ms tick_ms 0 u"
    by (simp add: source_a_raw_guarded source_a_raw_cli_guarded)
  have c: "tick_ms > 0 \<Longrightarrow> source_guarded dt_ms tick_ms a_stress u = source_spec dt_ms tick_ms a_stress u"
    by (simp add: source_guarded_def source_spec_def)
  have d: "\<not> tick_ms > 0 \<Longrightarrow> source_guarded dt_ms tick_ms a_stress u = 2 / 100 + a_stress + (1 / 100) * u"
    by (simp add: source_guarded_def jitter_spec_def)
  show ?thesis
    using a b c d by (simp add: source_guarded_def jitter_spec_def)
qed

subsection \<open>Band classifier: a partition into five half-open intervals\<close>

text \<open>
  C5. \<open>classify_band\<close> is total and returns one of the five labels \<open>A+\<close>, \<open>A\<close>, \<open>B\<close>,
  \<open>C\<close>, \<open>D\<close>; each label is returned on exactly one interval, the five intervals cover the
  real line without overlap, and each boundary \<open>0.80\<close>, \<open>0.40\<close>, \<open>0.10\<close>, \<open>-0.10\<close> belongs
  to the higher band.
\<close>

theorem classify_band_partition:
  "classify_band a \<in> {''A+'', ''A'', ''B'', ''C'', ''D''}
   \<and> (classify_band a = ''A+'' \<longleftrightarrow> 80 / 100 \<le> a)
   \<and> (classify_band a = ''A'' \<longleftrightarrow> 40 / 100 \<le> a \<and> a < 80 / 100)
   \<and> (classify_band a = ''B'' \<longleftrightarrow> 10 / 100 \<le> a \<and> a < 40 / 100)
   \<and> (classify_band a = ''C'' \<longleftrightarrow> - (10 / 100) \<le> a \<and> a < 10 / 100)
   \<and> (classify_band a = ''D'' \<longleftrightarrow> a < - (10 / 100))
   \<and> classify_band (80 / 100) = ''A+''
   \<and> classify_band (40 / 100) = ''A''
   \<and> classify_band (10 / 100) = ''B''
   \<and> classify_band (- (10 / 100)) = ''C''"
  by (simp add: classify_band_def)

subsection \<open>The recorded alignment string\<close>

text \<open>
  \<^verbatim>\<open>f"{a_out:+.9f}"\<close>: the sign, the integer part, a point and nine fractional digits of
  the value rounded to the nearest multiple of \<open>10^-9\<close>, ties to the even neighbour. A
  negative value keeps its sign when it rounds to zero.
\<close>

definition round_half_even :: "real \<Rightarrow> int" where
  "round_half_even x =
     (let f = \<lfloor>x\<rfloor>; d = x - of_int f
      in if d < 1 / 2 then f else if d > 1 / 2 then f + 1 else if even f then f else f + 1)"

definition digit_char :: "nat \<Rightarrow> char" where
  "digit_char d = ''0123456789'' ! d"

fun dec_str :: "nat \<Rightarrow> string" where
  "dec_str n = (if n < 10 then [digit_char n] else dec_str (n div 10) @ [digit_char (n mod 10)])"

declare dec_str.simps [simp del]

fun frac_digits :: "nat \<Rightarrow> nat \<Rightarrow> string" where
  "frac_digits 0 n = []"
| "frac_digits (Suc k) n = frac_digits k (n div 10) @ [digit_char (n mod 10)]"

definition fmt_align :: "real \<Rightarrow> string" where
  "fmt_align a =
     (let q = nat (round_half_even (\<bar>a\<bar> * 10 ^ 9))
      in (if a < 0 then CHR ''-'' else CHR ''+'')
         # dec_str (q div 10 ^ 9) @ ''.'' @ frac_digits 9 (q mod 10 ^ 9))"






subsection \<open>Kernel steps never fail; the running mean\<close>

lemma clamp_a_bounds: "- 1 + EPS_A \<le> clamp_a a \<and> clamp_a a \<le> 1 - EPS_A"
  by (simp add: clamp_a_def EPS_A_def Let_def)

lemma clamp_a_inside: "- 1 < clamp_a a \<and> clamp_a a < 1"
  using clamp_a_bounds [of a] by (simp add: EPS_A_def)

lemma atanh_safe_clamp: "atanh_safe (clamp_a a) = Inr (transformed a)"
  using clamp_a_inside [of a] by (simp add: atanh_safe_def log1p_def transformed_def)

lemma kernel_step_eq:
  "kernel_step decay weight (u0, w0) a
     = Inr (tanh ((decay * u0 + weight * transformed a) / floor_denom (decay * w0 + weight)),
            decay * u0 + weight * transformed a, decay * w0 + weight)"
  by (simp add: kernel_step_def atanh_safe_clamp Let_def)

lemma tanh_half_ln_ratio:
  assumes "- 1 < x" "x < (1::real)"
  shows "tanh ((ln (1 + x) - ln (1 - x)) / 2) = x"
proof -
  have "- 2 * ((ln (1 + x) - ln (1 - x)) / 2) = ln (1 - x) - ln (1 + x)"
    by simp
  then have "exp (- 2 * ((ln (1 + x) - ln (1 - x)) / 2)) = exp (ln (1 - x)) / exp (ln (1 + x))"
    by (simp only: exp_diff)
  also have "\<dots> = (1 - x) / (1 + x)"
    using assms by simp
  finally have e: "exp (- 2 * ((ln (1 + x) - ln (1 - x)) / 2)) = (1 - x) / (1 + x)" .
  have "1 + x \<noteq> 0"
    using assms by simp
  then have "(1 - (1 - x) / (1 + x)) / (1 + (1 - x) / (1 + x)) = x"
    by (simp add: field_simps)
  then show ?thesis
    unfolding tanh_real_altdef e .
qed

lemma floor_denom_ge1: "1 \<le> w \<Longrightarrow> floor_denom w = w"
  by (simp add: floor_denom_def EPS_W_def)

lemma kernel_run_mean_gen:
  "\<exists>outs. kernel_run 1 1 (s, real k) as
            = Inr (outs, s + sum_list (map transformed as), real (k + length as))
        \<and> length outs = length as
        \<and> (as \<noteq> [] \<longrightarrow>
             last outs = tanh ((s + sum_list (map transformed as)) / real (k + length as)))"
proof (induction as arbitrary: s k)
  case Nil
  show ?case by simp
next
  case (Cons a as)
  let ?s = "s + transformed a"
  from Cons.IH [of ?s "Suc k"] obtain outs where
    run: "kernel_run 1 1 (?s, real (Suc k)) as
            = Inr (outs, ?s + sum_list (map transformed as), real (Suc k + length as))"
    and len: "length outs = length as"
    and lst: "as \<noteq> [] \<longrightarrow>
             last outs = tanh ((?s + sum_list (map transformed as)) / real (Suc k + length as))"
    by blast
  have step: "kernel_step 1 1 (s, real k) a = Inr (tanh (?s / real (Suc k)), ?s, real (Suc k))"
    by (simp add: kernel_step_eq floor_denom_ge1 add.commute)
  show ?case
  proof (cases "as = []")
    case True
    with step show ?thesis by simp
  next
    case False
    with len have "outs \<noteq> []" by auto
    with step run len lst False show ?thesis
      by (simp add: add.assoc)
  qed
qed


lemma transformed_one: "transformed 1 = (ln (2 - EPS_A) - ln EPS_A) / 2"
  by (simp add: transformed_def clamp_a_def EPS_A_def Let_def)

lemma transformed_le: "transformed a \<le> transformed 1"
proof -
  have b: "- 1 < clamp_a a" "clamp_a a \<le> 1 - EPS_A" "0 < EPS_A"
    using clamp_a_inside [of a] clamp_a_bounds [of a] by (simp_all add: EPS_A_def)
  have "ln (1 + clamp_a a) \<le> ln (2 - EPS_A)"
    using b by simp
  moreover have "ln EPS_A \<le> ln (1 - clamp_a a)"
    using b by simp
  ultimately show ?thesis
    unfolding transformed_one unfolding transformed_def by argo
qed

lemma transformed_ge: "- transformed 1 \<le> transformed a"
proof -
  have b: "clamp_a a < 1" "- 1 + EPS_A \<le> clamp_a a" "0 < EPS_A"
    using clamp_a_inside [of a] clamp_a_bounds [of a] by (simp_all add: EPS_A_def)
  have "ln EPS_A \<le> ln (1 + clamp_a a)"
    using b by simp
  moreover have "ln (1 - clamp_a a) \<le> ln (2 - EPS_A)"
    using b by simp
  ultimately show ?thesis
    unfolding transformed_one unfolding transformed_def by argo
qed

lemma transformed_abs_le: "\<bar>transformed a\<bar> \<le> transformed 1"
  using transformed_le [of a] transformed_ge [of a] by simp

lemma transformed_one_nonneg: "0 \<le> transformed 1"
  using transformed_abs_le [of 0] by simp

lemma tanh_transformed: "tanh (transformed a) = clamp_a a"
  unfolding transformed_def using clamp_a_inside [of a] by (simp add: tanh_half_ln_ratio)

lemma tanh_transformed_one: "tanh (transformed 1) = 1 - EPS_A"
  by (simp add: tanh_transformed) (simp add: clamp_a_def EPS_A_def Let_def)

lemma tanh_abs_bound: "\<bar>x\<bar> \<le> transformed 1 \<Longrightarrow> \<bar>tanh x\<bar> \<le> 1 - EPS_A"
proof -
  assume "\<bar>x\<bar> \<le> transformed 1"
  then have "tanh \<bar>x\<bar> \<le> tanh (transformed 1)"
    by (simp only: tanh_real_le_iff)
  then show ?thesis
    by (simp add: tanh_transformed_one)
qed

definition kernel_inv :: "real \<times> real \<Rightarrow> bool" where
  "kernel_inv uw \<longleftrightarrow> 0 \<le> snd uw \<and> snd uw < 200 \<and> \<bar>fst uw\<bar> \<le> snd uw * transformed 1"

lemma kernel_step_default:
  assumes inv0: "kernel_inv (u0, w0)"
    and u1_def: "u1 = DECAY_W * u0 + W_DEFAULT * transformed a"
    and w1_def: "w1 = DECAY_W * w0 + W_DEFAULT"
  shows "kernel_step DECAY_W W_DEFAULT (u0, w0) a = Inr (tanh (u1 / w1), u1, w1)"
    and "1 \<le> w1" and "w1 < 200" and "kernel_inv (u1, w1)"
    and "\<bar>tanh (u1 / w1)\<bar> \<le> 1 - EPS_A"
proof -
  from inv0 have w0: "0 \<le> w0" "w0 < 200" and u0: "\<bar>u0\<bar> \<le> w0 * transformed 1"
    by (simp_all add: kernel_inv_def)
  show w1: "1 \<le> w1" "w1 < 200"
    using w0 by (simp_all add: w1_def DECAY_W_def W_DEFAULT_def)
  then show "kernel_step DECAY_W W_DEFAULT (u0, w0) a = Inr (tanh (u1 / w1), u1, w1)"
    by (simp add: kernel_step_eq u1_def w1_def floor_denom_ge1)
  have "\<bar>u1\<bar> \<le> DECAY_W * \<bar>u0\<bar> + \<bar>transformed a\<bar>"
    by (simp add: u1_def DECAY_W_def W_DEFAULT_def abs_mult) 
  also have "\<dots> \<le> DECAY_W * (w0 * transformed 1) + transformed 1"
    using u0 transformed_abs_le [of a] by (simp add: DECAY_W_def)
  also have "\<dots> = w1 * transformed 1"
    by (simp add: w1_def W_DEFAULT_def algebra_simps)
  finally have u1: "\<bar>u1\<bar> \<le> w1 * transformed 1" .
  with w1 show "kernel_inv (u1, w1)"
    by (simp add: kernel_inv_def)
  have "\<bar>u1 / w1\<bar> \<le> transformed 1"
    using u1 w1 by (simp add: field_simps)
  then show "\<bar>tanh (u1 / w1)\<bar> \<le> 1 - EPS_A"
    by (rule tanh_abs_bound)
qed

lemma kernel_run_default:
  assumes "kernel_inv uw0"
  shows "\<exists>outs u w. kernel_run DECAY_W W_DEFAULT uw0 as = Inr (outs, u, w)
           \<and> length outs = length as \<and> kernel_inv (u, w)
           \<and> (as \<noteq> [] \<longrightarrow> 1 \<le> w \<and> last outs = tanh (u / w))
           \<and> list_all (\<lambda>a_out. \<bar>a_out\<bar> \<le> 1 - EPS_A) outs"
  using assms
proof (induction as arbitrary: uw0)
  case Nil
  then show ?case by (cases uw0) simp
next
  case (Cons a as)
  obtain u0 w0 where uw0: "uw0 = (u0, w0)"
    by (cases uw0)
  define u1 where "u1 = DECAY_W * u0 + W_DEFAULT * transformed a"
  define w1 where "w1 = DECAY_W * w0 + W_DEFAULT"
  from Cons.prems uw0 have inv0: "kernel_inv (u0, w0)"
    by simp
  note st = kernel_step_default [OF inv0 u1_def w1_def]
  from Cons.IH [OF st(4)] obtain outs u w where
    run: "kernel_run DECAY_W W_DEFAULT (u1, w1) as = Inr (outs, u, w)"
    and len: "length outs = length as" and inv: "kernel_inv (u, w)"
    and lst: "as \<noteq> [] \<longrightarrow> 1 \<le> w \<and> last outs = tanh (u / w)"
    and bnd: "list_all (\<lambda>a_out. \<bar>a_out\<bar> \<le> 1 - EPS_A) outs"
    by blast
  show ?case
  proof (cases "as = []")
    case True
    with st uw0 show ?thesis by simp
  next
    case False
    with len have "outs \<noteq> []" by auto
    with st uw0 run len inv lst bnd False show ?thesis
      by simp
  qed
qed

lemma kernel_inv_zero: "kernel_inv (0, 0)"
  by (simp add: kernel_inv_def)

subsection \<open>Formatting of values inside the clamp range\<close>

lemma below_ten: "(d::nat) < 10 \<Longrightarrow> d = 0 \<or> d = 1 \<or> d = 2 \<or> d = 3 \<or> d = 4 \<or> d = 5 \<or> d = 6 \<or> d = 7 \<or> d = 8 \<or> d = 9"
  by arith


lemma digit_char_no_point: "d < 10 \<Longrightarrow> digit_char d \<noteq> CHR ''.''"
  using below_ten [of d] by (auto simp: digit_char_def)




lemma frac_digits_no_point: "CHR ''.'' \<notin> set (frac_digits k n)"
proof (induction k arbitrary: n)
  case 0
  show ?case by simp
next
  case (Suc k)
  have "digit_char (n mod 10) \<noteq> CHR ''.''"
    by (simp add: digit_char_no_point)
  with Suc show ?case by simp
qed


lemma round_half_even_nonneg: "0 \<le> x \<Longrightarrow> 0 \<le> round_half_even x"
  by (simp add: round_half_even_def Let_def)


lemma frac_digits_numeral:
  "frac_digits (numeral k) n = frac_digits (pred_numeral k) (n div 10) @ [digit_char (n mod 10)]"
proof -
  have "frac_digits (Suc (pred_numeral k)) n = frac_digits (pred_numeral k) (n div 10) @ [digit_char (n mod 10)]"
    by (rule frac_digits.simps)
  then show ?thesis
    by (simp only: numeral_eq_Suc [of k, symmetric])
qed


subsection \<open>C6, C7 and C10\<close>

text \<open>
  C6. With \<open>decay = 1\<close> and \<open>weight = 1\<close> at every step, from the zero state, after the
  \<open>N \<ge> 1\<close> steps on raw inputs \<open>as\<close> the last output is \<open>tanh\<close> of the arithmetic mean of
  the transformed inputs \<open>u_1 .. u_N\<close>, where the transformed input of a step is what
  \<open>atanh_safe\<close> returns on the clamped raw value. The accumulators are then the sum of the
  \<open>u_i\<close> and \<open>N\<close>.
\<close>

theorem running_mean_without_decay:
  assumes "as \<noteq> []"
  shows "\<exists>outs. kernel_run 1 1 (0, 0) as
                  = Inr (outs, sum_list (map transformed as), real (length as))
               \<and> length outs = length as
               \<and> last outs = tanh (sum_list (map transformed as) / real (length as))
               \<and> map (\<lambda>a. atanh_safe (clamp_a a)) as = map (\<lambda>a. Inr (transformed a)) as"
proof -
  from kernel_run_mean_gen [of 0 0 as] assms obtain outs where
    "kernel_run 1 1 (0, 0) as = Inr (outs, sum_list (map transformed as), real (length as))"
    "length outs = length as"
    "last outs = tanh (sum_list (map transformed as) / real (length as))"
    by auto
  then show ?thesis
    by (auto simp: atanh_safe_clamp)
qed

theorem running_mean_without_decay_witness:
  "[3 / 10, - (1 / 10)] \<noteq> ([] :: real list)
   \<and> (\<exists>outs. kernel_run 1 1 (0, 0) [3 / 10, - (1 / 10)]
                  = Inr (outs, transformed (3 / 10) + transformed (- (1 / 10)), 2)
               \<and> length outs = 2
               \<and> last outs = tanh ((transformed (3 / 10) + transformed (- (1 / 10))) / 2))"
  using running_mean_without_decay [of "[3 / 10, - (1 / 10)]"]
  by (auto simp del: kernel_run.simps simp add: numeral_2_eq_2)

text \<open>
  C10. From \<open>W = 0\<close> with \<open>decay = 0.995\<close> and \<open>weight = 1.0\<close>, after every kernel step
  (the first included) the accumulated weight satisfies \<open>1 \<le> W < 200\<close>; hence
  \<open>W > EPS_W\<close>, the divisor is \<open>W\<close> itself and the output of the step is \<open>tanh (U / W)\<close>:
  the branch that replaces the divisor by \<open>EPS_W\<close> is not taken.
\<close>

theorem accumulated_weight_bounds:
  assumes "as \<noteq> []"
  shows "\<exists>outs u w. kernel_run DECAY_W W_DEFAULT (0, 0) as = Inr (outs, u, w)
           \<and> length outs = length as
           \<and> 1 \<le> w \<and> w < 200 \<and> EPS_W < w \<and> floor_denom w = w
           \<and> last outs = tanh (u / w)"
proof -
  from kernel_run_default [OF kernel_inv_zero, of as] assms obtain outs u w where
    run: "kernel_run DECAY_W W_DEFAULT (0, 0) as = Inr (outs, u, w)"
    and len: "length outs = length as"
    and inv: "kernel_inv (u, w)"
    and w: "1 \<le> w" and lst: "last outs = tanh (u / w)"
    by blast
  from inv have "w < 200"
    by (simp add: kernel_inv_def)
  moreover from w have "EPS_W < w"
    by (simp add: EPS_W_def)
  moreover from w have "floor_denom w = w"
    by (rule floor_denom_ge1)
  ultimately show ?thesis
    using run len w lst by blast
qed

theorem accumulated_weight_bounds_witness:
  "[0, 5] \<noteq> ([] :: real list)
   \<and> (\<exists>outs u w. kernel_run DECAY_W W_DEFAULT (0, 0) [0, 5] = Inr (outs, u, w)
           \<and> length outs = 2
           \<and> 1 \<le> w \<and> w < 200 \<and> EPS_W < w \<and> floor_denom w = w
           \<and> last outs = tanh (u / w))"
  using accumulated_weight_bounds [of "[0, 5]"]
  by (auto simp del: kernel_run.simps simp add: numeral_2_eq_2)



section \<open>The tick engine\<close>

text \<open>
  A recorded row is the tuple
  \<open>(tick_index, time_utc, final_align, band, stamp, tick_ms, dt_ms, a_stress)\<close>.
\<close>

type_synonym row = "int \<times> string \<times> string \<times> string \<times> string \<times> real \<times> real \<times> real"

text \<open>
  The session state: the module-level variables of the desktop script, which are the local
  variables of \<open>run_clockke_cli\<close> in the command-line script (\<open>running\<close> apart).
\<close>

record engine =
  U :: real
  W :: real
  prev_stamp :: string
  tick_index :: int
  running :: bool
  rows :: "row list"
  last_tick_epoch :: "real option"

definition AUTO_STOP_TICKS :: int where "AUTO_STOP_TICKS = 600"

text \<open>\<open>reset_engine\<close>: the session-start values (the widgets it clears are not modelled).\<close>

definition reset_engine :: "engine \<Rightarrow> engine" where
  "reset_engine s = s\<lparr>U := 0, W := 0, prev_stamp := [], tick_index := 1, rows := [],
                       last_tick_epoch := None\<rparr>"

text \<open>
  What one call of \<open>tick\<close> reads from outside: \<open>time.time()\<close>, \<open>now_utc_iso()\<close>, the
  cadence selector, the stress slider and the draw of the random source.
\<close>

record tick_env =
  env_now_epoch :: real
  env_time_utc :: string
  env_tick_ms :: real
  env_a_stress :: real
  env_noise_unit :: real

definition tick :: "tick_env \<Rightarrow> engine \<Rightarrow> error + engine" where
  "tick env s =
     (if \<not> running s then Inr s
      else if tick_index s > AUTO_STOP_TICKS then Inr (s\<lparr>running := False\<rparr>)
      else
        (let TICK_MS = env_tick_ms env;
             now_epoch = env_now_epoch env;
             time_utc = env_time_utc env;
             dt_ms = (case last_tick_epoch s of
                        None \<Rightarrow> TICK_MS
                      | Some l \<Rightarrow> (now_epoch - l) * 1000);
             a_stress = env_a_stress env;
             a_raw = source_a_raw now_epoch dt_ms TICK_MS a_stress (env_noise_unit env)
         in case kernel_step DECAY_W W_DEFAULT (U s, W s) a_raw of
              Inl e \<Rightarrow> Inl e
            | Inr (a_out, u_acc, w_acc) \<Rightarrow>
                (let band = classify_band a_out;
                     final_align_str = fmt_align a_out;
                     payload_str = time_utc @ ''|'' @ final_align_str @ ''|'' @ band;
                     stamp = make_stamp (prev_stamp s) payload_str time_utc
                 in Inr (s\<lparr>U := u_acc, W := w_acc, prev_stamp := stamp,
                           rows := rows s @ [(tick_index s, time_utc, final_align_str, band, stamp,
                                              TICK_MS, dt_ms, a_stress)],
                           tick_index := tick_index s + 1,
                           last_tick_epoch := Some now_epoch\<rparr>))))"

text \<open>\<open>tick\<close> re-arms itself with \<open>root.after\<close>: one call per reading of the environment.\<close>

fun run_ticks :: "tick_env list \<Rightarrow> engine \<Rightarrow> error + engine" where
  "run_ticks [] s = Inr s"
| "run_ticks (env # envs) s =
     (case tick env s of Inl e \<Rightarrow> Inl e | Inr s' \<Rightarrow> run_ticks envs s')"

text \<open>\<open>on_start\<close> on a stopped session: reset, set \<open>running\<close>, tick.\<close>

definition on_start :: "tick_env list \<Rightarrow> engine \<Rightarrow> error + engine" where
  "on_start envs s = (if running s then Inr s else run_ticks envs ((reset_engine s)\<lparr>running := True\<rparr>))"

text \<open>
  The loop of \<open>run_clockke_cli\<close>. An iteration reads \<open>(time.time(), now_utc_iso(), draw)\<close>;
  the list of readings ends where \<open>Ctrl+C\<close> interrupts the loop. The stress recorded is
  \<open>0.0\<close>.
\<close>

type_synonym cli_env = "real \<times> string \<times> real"

fun cli_loop :: "real \<Rightarrow> int \<Rightarrow> cli_env list \<Rightarrow> engine \<Rightarrow> error + engine" where
  "cli_loop tick_sec max_ticks [] s = Inr s"
| "cli_loop tick_sec max_ticks ((now_epoch, time_utc, noise_unit) # envs) s =
     (let tick_ms = tick_sec * 1000;
          dt_ms = (case last_tick_epoch s of
                     None \<Rightarrow> tick_ms
                   | Some l \<Rightarrow> (now_epoch - l) * 1000);
          a_raw = source_a_raw_cli now_epoch dt_ms tick_ms noise_unit
      in case kernel_step DECAY_W W_DEFAULT (U s, W s) a_raw of
           Inl e \<Rightarrow> Inl e
         | Inr (a_out, u_acc, w_acc) \<Rightarrow>
             (let band = classify_band a_out;
                  final_align_str = fmt_align a_out;
                  payload_str = time_utc @ ''|'' @ final_align_str @ ''|'' @ band;
                  stamp = make_stamp (prev_stamp s) payload_str time_utc;
                  s' = s\<lparr>U := u_acc, W := w_acc, prev_stamp := stamp,
                          rows := rows s @ [(tick_index s, time_utc, final_align_str, band, stamp,
                                             tick_ms, dt_ms, 0)],
                          last_tick_epoch := Some now_epoch\<rparr>
              in if max_ticks > 0 \<and> tick_index s \<ge> max_ticks then Inr s'
                 else cli_loop tick_sec max_ticks envs (s'\<lparr>tick_index := tick_index s + 1\<rparr>)))"

definition cli_start :: engine where
  "cli_start = \<lparr>U = 0, W = 0, prev_stamp = [], tick_index = 1, running = True, rows = [],
                last_tick_epoch = None\<rparr>"

definition run_clockke_cli :: "real \<Rightarrow> int \<Rightarrow> cli_env list \<Rightarrow> error + engine" where
  "run_clockke_cli tick_sec max_ticks envs = cli_loop tick_sec max_ticks envs cli_start"

subsection \<open>The chain as a function of the recorded triples\<close>

definition row_triple :: "row \<Rightarrow> string \<times> string \<times> string" where
  "row_triple r = (case r of (i, t, fa, b, st, rest) \<Rightarrow> (t, fa, b))"

definition row_stamp :: "row \<Rightarrow> string" where
  "row_stamp r = (case r of (i, t, fa, b, st, rest) \<Rightarrow> st)"

text \<open>The stamps a generator fed with the triples produces, from a given previous stamp.\<close>

fun chain_stamps :: "string \<Rightarrow> (string \<times> string \<times> string) list \<Rightarrow> string list" where
  "chain_stamps prev [] = []"
| "chain_stamps prev ((t, fa, b) # xs) =
     (let st = make_stamp prev (t @ ''|'' @ fa @ ''|'' @ b) t in st # chain_stamps st xs)"

definition chained :: "engine \<Rightarrow> bool" where
  "chained s \<longleftrightarrow>
     map row_stamp (rows s) = chain_stamps [] (map row_triple (rows s))
     \<and> prev_stamp s = last ([] # map row_stamp (rows s))"

lemma chain_stamps_snoc:
  "chain_stamps p (xs @ [(t, fa, b)])
     = chain_stamps p xs @ [make_stamp (last (p # chain_stamps p xs)) (t @ ''|'' @ fa @ ''|'' @ b) t]"
proof (induction xs arbitrary: p)
  case Nil
  show ?case by simp
next
  case (Cons x xs)
  obtain t' fa' b' where x: "x = (t', fa', b')"
    by (cases x)
  show ?case
    using Cons [of "make_stamp p (t' @ ''|'' @ fa' @ ''|'' @ b') t'"]
    by (simp add: x Let_def)
qed

lemma chained_tick_index: "chained (s\<lparr>tick_index := i\<rparr>) = chained s"
  by (simp add: chained_def)

lemma tick_chained: "chained s \<Longrightarrow> tick env s = Inr s' \<Longrightarrow> chained s'"
  by (auto simp: tick_def chained_def Let_def row_stamp_def row_triple_def chain_stamps_snoc
      split: if_splits sum.splits)

lemma run_ticks_chained: "chained s \<Longrightarrow> run_ticks envs s = Inr s' \<Longrightarrow> chained s'"
proof (induction envs arbitrary: s)
  case Nil
  then show ?case by simp
next
  case (Cons env envs)
  then show ?case
    by (auto split: sum.splits dest: tick_chained)
qed

lemma cli_loop_chained:
  "chained s \<Longrightarrow> cli_loop tick_sec max_ticks envs s = Inr s' \<Longrightarrow> chained s'"
proof (induction envs arbitrary: s)
  case Nil
  then show ?case by simp
next
  case (Cons env envs)
  obtain now_epoch time_utc noise_unit where env: "env = (now_epoch, time_utc, noise_unit)"
    by (cases env)
  let ?tick_ms = "tick_sec * 1000"
  let ?dt = "case last_tick_epoch s of None \<Rightarrow> ?tick_ms | Some l \<Rightarrow> (now_epoch - l) * 1000"
  obtain a_out u_acc w_acc where
    ks: "kernel_step DECAY_W W_DEFAULT (U s, W s) (source_a_raw_cli now_epoch ?dt ?tick_ms noise_unit)
           = Inr (a_out, u_acc, w_acc)"
    using kernel_step_eq by blast
  let ?stamp = "make_stamp (prev_stamp s) (time_utc @ ''|'' @ fmt_align a_out @ ''|'' @ classify_band a_out) time_utc"
  let ?s1 = "s\<lparr>U := u_acc, W := w_acc, prev_stamp := ?stamp,
               rows := rows s @ [(tick_index s, time_utc, fmt_align a_out, classify_band a_out, ?stamp,
                                  ?tick_ms, ?dt, 0)],
               last_tick_epoch := Some now_epoch\<rparr>"
  from Cons.prems(1) have c1: "chained ?s1"
    by (auto simp: chained_def row_stamp_def row_triple_def chain_stamps_snoc)
  then have c2: "chained (?s1\<lparr>tick_index := tick_index s + 1\<rparr>)"
    by (simp only: chained_tick_index)
  show ?case
  proof (cases "max_ticks > 0 \<and> tick_index s \<ge> max_ticks")
    case True
    with Cons.prems(2) ks have "s' = ?s1"
      by (simp add: env Let_def)
    with c1 show ?thesis by simp
  next
    case False
    with Cons.prems(2) ks
    have "cli_loop tick_sec max_ticks envs (?s1\<lparr>tick_index := tick_index s + 1\<rparr>) = Inr s'"
      by (simp add: env Let_def)
    with Cons.IH [OF c2] show ?thesis by simp
  qed
qed

lemma chained_reset: "chained ((reset_engine s)\<lparr>running := True\<rparr>)"
  by (simp add: chained_def reset_engine_def)

lemma chained_cli_start: "chained cli_start"
  by (simp add: chained_def cli_start_def)

lemma tick_total: "\<exists>s'. tick env s = Inr s'"
proof -
  obtain u w where "(U s, W s) = (u, w)" by simp
  show ?thesis
    by (simp add: tick_def Let_def kernel_step_eq)
qed

lemma run_ticks_total: "\<exists>s'. run_ticks envs s = Inr s'"
proof (induction envs arbitrary: s)
  case Nil
  show ?case by simp
next
  case (Cons env envs)
  from tick_total [of env s] obtain s1 where "tick env s = Inr s1" by blast
  with Cons [of s1] show ?case by simp
qed

lemma cli_loop_total: "\<exists>s'. cli_loop tick_sec max_ticks envs s = Inr s'"
proof (induction envs arbitrary: s)
  case Nil
  show ?case by simp
next
  case (Cons env envs)
  obtain now_epoch time_utc noise_unit where env: "env = (now_epoch, time_utc, noise_unit)"
    by (cases env)
  show ?case
    using Cons by (simp add: env Let_def kernel_step_eq)
qed


lemma on_start_chained: "\<not> running s0 \<Longrightarrow> on_start envs s0 = Inr s \<Longrightarrow> chained s"
  using run_ticks_chained [OF chained_reset] by (simp add: on_start_def)

lemma run_clockke_cli_chained: "run_clockke_cli tick_sec max_ticks envs = Inr s \<Longrightarrow> chained s"
  using cli_loop_chained [OF chained_cli_start] by (simp add: run_clockke_cli_def)

lemma on_start_total: "\<exists>s'. on_start envs s = Inr s'"
  by (simp add: on_start_def run_ticks_total)

lemma run_clockke_cli_total: "\<exists>s'. run_clockke_cli tick_sec max_ticks envs = Inr s'"
  by (simp add: run_clockke_cli_def cli_loop_total)

text \<open>
  C9. Take two runs, each of the desktop engine (started from a stopped session) or of the
  command-line loop, whatever their clocks, cadences, stress settings and random draws. The
  stamps a run records are the chain computed from the empty previous stamp over its
  \<open>(time_utc, final_align, band)\<close> triples alone; so two runs that record the same triples
  record the same stamps, character for character.
\<close>

theorem stamp_chain_deterministic:
  assumes "(\<not> running s1 \<and> on_start envs1 s1 = Inr e1) \<or> run_clockke_cli sec1 max1 cenvs1 = Inr e1"
    and "(\<not> running s2 \<and> on_start envs2 s2 = Inr e2) \<or> run_clockke_cli sec2 max2 cenvs2 = Inr e2"
    and "map row_triple (rows e1) = map row_triple (rows e2)"
  shows "map row_stamp (rows e1) = map row_stamp (rows e2)
         \<and> map row_stamp (rows e1) = chain_stamps [] (map row_triple (rows e1))"
proof -
  from assms(1) have "chained e1"
    using on_start_chained run_clockke_cli_chained by blast
  moreover from assms(2) have "chained e2"
    using on_start_chained run_clockke_cli_chained by blast
  ultimately show ?thesis
    using assms(3) by (simp add: chained_def)
qed

definition demo_env :: tick_env where
  "demo_env = \<lparr>env_now_epoch = 0, env_time_utc = ''2025-01-01T00:00:00Z'', env_tick_ms = 1000,
               env_a_stress = 0, env_noise_unit = 0\<rparr>"

definition demo_cli_env :: cli_env where
  "demo_cli_env = (5, ''2025-01-01T00:00:00Z'', 0)"

theorem stamp_chain_deterministic_witness:
  "\<exists>e1 e2. \<not> running (cli_start\<lparr>running := False\<rparr>)
      \<and> on_start [demo_env] (cli_start\<lparr>running := False\<rparr>) = Inr e1
      \<and> run_clockke_cli 1 1 [demo_cli_env] = Inr e2
      \<and> length (rows e1) = 1
      \<and> last_tick_epoch e1 \<noteq> last_tick_epoch e2
      \<and> map row_triple (rows e1) = map row_triple (rows e2)
      \<and> map row_stamp (rows e1) = map row_stamp (rows e2)"
proof -
  let ?s0 = "cli_start\<lparr>running := False\<rparr>"
  obtain e1 where r1: "on_start [demo_env] ?s0 = Inr e1"
    using on_start_total by blast
  obtain e2 where r2: "run_clockke_cli 1 1 [demo_cli_env] = Inr e2"
    using run_clockke_cli_total by blast
  have src: "source_a_raw 0 1000 1000 0 0 = source_a_raw_cli 5 1000 1000 0"
    by (simp add: source_a_raw_guarded source_a_raw_cli_guarded)
  have nr: "\<not> running ?s0"
    by simp
  from r1 r2 have same: "map row_triple (rows e1) = map row_triple (rows e2)"
    and len: "length (rows e1) = 1" and ep: "last_tick_epoch e1 \<noteq> last_tick_epoch e2"
    by (auto simp: on_start_def run_clockke_cli_def reset_engine_def cli_start_def tick_def
        demo_env_def demo_cli_env_def AUTO_STOP_TICKS_def Let_def kernel_step_eq src row_triple_def)
  from stamp_chain_deterministic [of ?s0 "[demo_env]" e1 1 1 "[]" ?s0 "[]" e2 1 1 "[demo_cli_env]"] r1 r2 nr same
  have "map row_stamp (rows e1) = map row_stamp (rows e2)"
    by blast
  with r1 r2 nr same len ep show ?thesis
    by blast
qed

section \<open>Verification of a recorded chain\<close>

subsection \<open>In memory: \<open>verify_rows\<close> of the desktop script\<close>

text \<open>
  The \<open>for\<close> loop of \<open>verify_rows\<close>: \<open>Some\<close> is the tuple returned at the first mismatch,
  \<open>None\<close> is the loop running to its end.
\<close>

fun verify_rows_loop :: "string \<Rightarrow> row list \<Rightarrow> (bool \<times> int \<times> string \<times> string) option" where
  "verify_rows_loop prev [] = None"
| "verify_rows_loop prev ((tick_idx, time_utc, final_align_str, band, stamp, rest) # rs) =
     (let payload_str = time_utc @ ''|'' @ final_align_str @ ''|'' @ band;
          expected = make_stamp prev payload_str time_utc
      in if expected \<noteq> stamp then Some (False, tick_idx, stamp, expected)
         else verify_rows_loop stamp rs)"

text \<open>
  \<open>verify_rows\<close> reads the global \<open>rows\<close> and assigns to no global: the session comes back
  as it went in, next to the returned tuple \<open>(ok, value, stored, expected)\<close>.
\<close>

definition verify_rows :: "engine \<Rightarrow> (bool \<times> int \<times> string \<times> string) \<times> engine" where
  "verify_rows s =
     (if rows s = [] then ((True, 0, [], []), s)
      else case verify_rows_loop [] (rows s) of
             Some failure \<Rightarrow> (failure, s)
           | None \<Rightarrow> ((True, int (length (rows s)), [], []), s))"

subsection \<open>From a file: \<open>verify_file\<close> of the verifier script\<close>

text \<open>
  \<open>csv.DictReader\<close> yields one dictionary per data line, keyed by the header's column names.
  A line shorter than the header leaves the missing columns at \<open>None\<close>; a column absent from
  the header is absent from every dictionary.
\<close>

type_synonym cell = "string option"
type_synonym csv_row = "string \<rightharpoonup> cell"

text \<open>How an f-string and \<open>print\<close> render a cell.\<close>

definition fstr :: "cell \<Rightarrow> string" where
  "fstr c = (case c of None \<Rightarrow> ''None'' | Some s \<Rightarrow> s)"

text \<open>What \<open>verify_file\<close> prints: the verdict, with the count or the first mismatch.\<close>

datatype verdict =
  AllChecksPassed nat
| VerificationFailed string string string

text \<open>
  The loop over the reader. \<open>row["k"]\<close> raises \<open>KeyError\<close> for an absent column; the fields
  are read in the order of the source. \<open>make_stamp\<close> calls \<open>.encode\<close> on its third argument,
  which raises \<open>AttributeError\<close> on \<open>None\<close>; \<open>expected_stamp != stored_stamp\<close> holds whenever
  the stored cell is \<open>None\<close>.
\<close>

fun verify_loop :: "string \<Rightarrow> nat \<Rightarrow> csv_row list \<Rightarrow> error + verdict" where
  "verify_loop prev count [] = Inr (AllChecksPassed count)"
| "verify_loop prev count (row # rest) =
     (case row ''tick_index'' of
        None \<Rightarrow> Inl (KeyError ''tick_index'')
      | Some tick_index_str \<Rightarrow>
     (case row ''time_utc'' of
        None \<Rightarrow> Inl (KeyError ''time_utc'')
      | Some time_utc \<Rightarrow>
     (case row ''final_align'' of
        None \<Rightarrow> Inl (KeyError ''final_align'')
      | Some final_align_str \<Rightarrow>
     (case row ''band'' of
        None \<Rightarrow> Inl (KeyError ''band'')
      | Some band \<Rightarrow>
     (case row ''stamp'' of
        None \<Rightarrow> Inl (KeyError ''stamp'')
      | Some stored_stamp \<Rightarrow>
          (let payload_str = fstr time_utc @ ''|'' @ fstr final_align_str @ ''|'' @ fstr band
           in case time_utc of
                None \<Rightarrow> Inl AttributeError
              | Some t \<Rightarrow>
                  (let expected_stamp = make_stamp prev payload_str t
                   in if Some expected_stamp \<noteq> stored_stamp
                      then Inr (VerificationFailed (fstr tick_index_str) (fstr stored_stamp) expected_stamp)
                      else verify_loop expected_stamp (count + 1) rest)))))))"

definition verify_file :: "csv_row list \<Rightarrow> error + verdict" where
  "verify_file reader = verify_loop [] 0 reader"

subsection \<open>Verification in the words of the specification\<close>

text \<open>
  A stored record exposes \<open>tick_index\<close>, \<open>time_utc\<close>, \<open>final_align\<close>, \<open>band\<close> and \<open>stamp\<close>.
  Replaying from a previous stamp pairs every record with the stored stamp of its predecessor
  (the given one for the first); a record passes when the stamp recomputed from that pair is
  the stored one. The outcome is the count when all pass, and otherwise the first record that
  does not, with its stored and expected stamps.
\<close>

type_synonym 'i stored = "'i \<times> string \<times> string \<times> string \<times> string"

fun stored_stamp_of :: "'i stored \<Rightarrow> string" where
  "stored_stamp_of (i, t, fa, b, st) = st"

fun expected_for :: "string \<Rightarrow> 'i stored \<Rightarrow> string" where
  "expected_for prev (i, t, fa, b, st) = make_stamp prev (t @ ''|'' @ fa @ ''|'' @ b) t"

definition passes :: "string \<times> 'i stored \<Rightarrow> bool" where
  "passes pr = (expected_for (fst pr) (snd pr) = stored_stamp_of (snd pr))"

datatype 'i replay = Verified nat | FirstMismatch 'i string string

definition replay_from :: "string \<Rightarrow> 'i stored list \<Rightarrow> 'i replay" where
  "replay_from prev recs =
     (case dropWhile passes (zip (prev # map stored_stamp_of recs) recs) of
        [] \<Rightarrow> Verified (length recs)
      | (p, r) # later \<Rightarrow> FirstMismatch (fst r) (stored_stamp_of r) (expected_for p r))"

definition row_stored :: "row \<Rightarrow> int stored" where
  "row_stored r = (case r of (i, t, fa, b, st, rest) \<Rightarrow> (i, t, fa, b, st))"

definition csv_of :: "string stored \<Rightarrow> csv_row" where
  "csv_of r = (case r of (i, t, fa, b, st) \<Rightarrow>
     [''tick_index'' \<mapsto> Some i, ''time_utc'' \<mapsto> Some t, ''final_align'' \<mapsto> Some fa,
      ''band'' \<mapsto> Some b, ''stamp'' \<mapsto> Some st])"

lemma replay_from_Nil: "replay_from prev [] = Verified 0"
  by (simp add: replay_from_def)

lemma replay_from_Cons:
  "replay_from prev ((i, t, fa, b, st) # recs) =
     (if make_stamp prev (t @ ''|'' @ fa @ ''|'' @ b) t \<noteq> st
      then FirstMismatch i st (make_stamp prev (t @ ''|'' @ fa @ ''|'' @ b) t)
      else (case replay_from st recs of
              Verified n \<Rightarrow> Verified (Suc n)
            | FirstMismatch j s e \<Rightarrow> FirstMismatch j s e))"
proof (cases "make_stamp prev (t @ ''|'' @ fa @ ''|'' @ b) t = st")
  case True
  then have "dropWhile passes (zip (prev # map stored_stamp_of ((i, t, fa, b, st) # recs)) ((i, t, fa, b, st) # recs))
               = dropWhile passes (zip (st # map stored_stamp_of recs) recs)"
    by (simp add: passes_def)
  with True show ?thesis
    by (simp add: replay_from_def del: dropWhile_eq_Nil_conv split: list.splits prod.splits)
next
  case False
  then show ?thesis
    by (simp add: replay_from_def passes_def)
qed

lemma verify_rows_loop_replay:
  "verify_rows_loop prev rs =
     (case replay_from prev (map row_stored rs) of
        Verified n \<Rightarrow> None
      | FirstMismatch i st e \<Rightarrow> Some (False, i, st, e))"
proof (induction rs arbitrary: prev)
  case Nil
  show ?case by (simp add: replay_from_Nil)
next
  case (Cons r rs)
  obtain i t fa b st rest where r: "r = (i, t, fa, b, st, rest)"
    by (metis prod_cases5)
  show ?case
    using Cons [of st]
    by (simp add: r row_stored_def replay_from_Cons Let_def split: replay.splits)
qed

lemma replay_from_count: "replay_from prev recs = Verified n \<Longrightarrow> n = length recs"
  by (simp add: replay_from_def split: list.splits prod.splits)

lemma verify_loop_replay:
  "verify_loop prev count (map csv_of recs) =
     (case replay_from prev recs of
        Verified n \<Rightarrow> Inr (AllChecksPassed (count + n))
      | FirstMismatch i st e \<Rightarrow> Inr (VerificationFailed i st e))"
proof (induction recs arbitrary: prev count)
  case Nil
  show ?case by (simp add: replay_from_Nil)
next
  case (Cons r recs)
  obtain i t fa b st where r: "r = (i, t, fa, b, st)"
    by (metis prod_cases5)
  show ?case
    using Cons [of st "count + 1"]
    by (simp add: r csv_of_def replay_from_Cons fstr_def Let_def split: replay.splits)
qed


lemma make_stamp_neq_length: "length x \<noteq> 64 \<Longrightarrow> make_stamp p q t \<noteq> x"
  using length_make_stamp [of p q t] by auto

lemma verify_rows_loop_append:
  "verify_rows_loop prev xs = Some failure \<Longrightarrow> verify_rows_loop prev (xs @ ys) = Some failure"
proof (induction xs arbitrary: prev)
  case Nil
  then show ?case by simp
next
  case (Cons r xs)
  obtain i t fa b st rest where r: "r = (i, t, fa, b, st, rest)"
    by (metis prod_cases5)
  from Cons show ?case
    by (auto simp: r Let_def split: if_splits)
qed

lemma verify_loop_append:
  "verify_loop prev count xs = Inr (VerificationFailed i st e)
   \<Longrightarrow> verify_loop prev count (xs @ ys) = Inr (VerificationFailed i st e)"
proof (induction xs arbitrary: prev count)
  case Nil
  then show ?case by simp
next
  case (Cons r xs)
  from Cons.prems show ?case
    by (auto simp: Let_def Cons.IH split: option.splits if_splits)
qed

text \<open>
  C2. For every sequence of records, \<open>verify_rows\<close> (on the rows in memory) and
  \<open>verify_file\<close> (on the rows of a file that hold these fields) replay the chain from the
  empty previous stamp: they return success with the number of records when every
  recomputed stamp equals the stored one, and otherwise the \<open>tick_index\<close> of the first
  record that fails with its stored and expected stamps. Once a record has failed, whatever
  follows it changes nothing in the report; \<open>verify_rows\<close> leaves the session as it found it;
  the empty sequence succeeds with count \<open>0\<close>.
\<close>

theorem verify_replays_chain:
  "fst (verify_rows s) =
     (case replay_from [] (map row_stored (rows s)) of
        Verified n \<Rightarrow> (True, int (length (rows s)), [], [])
      | FirstMismatch i st e \<Rightarrow> (False, i, st, e))
   \<and> snd (verify_rows s) = s
   \<and> verify_file (map csv_of recs) =
       Inr (case replay_from [] recs of
              Verified n \<Rightarrow> AllChecksPassed (length recs)
            | FirstMismatch i st e \<Rightarrow> VerificationFailed i st e)
   \<and> (\<not> fst (fst (verify_rows s)) \<longrightarrow>
        fst (verify_rows (s\<lparr>rows := rows s @ later\<rparr>)) = fst (verify_rows s))
   \<and> (verify_file (map csv_of recs) = Inr (VerificationFailed j stored expected) \<longrightarrow>
        verify_file (map csv_of recs @ later_lines) = Inr (VerificationFailed j stored expected))
   \<and> fst (verify_rows (s\<lparr>rows := []\<rparr>)) = (True, 0, [], [])
   \<and> verify_file [] = Inr (AllChecksPassed 0)"
proof -
  have a: "fst (verify_rows s) =
     (case replay_from [] (map row_stored (rows s)) of
        Verified n \<Rightarrow> (True, int (length (rows s)), [], [])
      | FirstMismatch i st e \<Rightarrow> (False, i, st, e))"
    by (simp add: verify_rows_def verify_rows_loop_replay replay_from_Nil split: replay.splits)
  have b: "snd (verify_rows s) = s"
    by (simp add: verify_rows_def split: option.splits)
  have c: "verify_file (map csv_of recs) =
       Inr (case replay_from [] recs of
              Verified n \<Rightarrow> AllChecksPassed (length recs)
            | FirstMismatch i st e \<Rightarrow> VerificationFailed i st e)"
    using replay_from_count [of "[]" recs]
    by (simp add: verify_file_def verify_loop_replay split: replay.splits)
  have d: "\<not> fst (fst (verify_rows s)) \<longrightarrow>
        fst (verify_rows (s\<lparr>rows := rows s @ later\<rparr>)) = fst (verify_rows s)"
  proof
    assume "\<not> fst (fst (verify_rows s))"
    then obtain failure where f: "verify_rows_loop [] (rows s) = Some failure" and ne: "rows s \<noteq> []"
      by (auto simp: verify_rows_def split: if_splits option.splits)
    from verify_rows_loop_append [OF f, of later] f ne
    show "fst (verify_rows (s\<lparr>rows := rows s @ later\<rparr>)) = fst (verify_rows s)"
      by (simp add: verify_rows_def)
  qed
  have e: "verify_file (map csv_of recs) = Inr (VerificationFailed j stored expected) \<longrightarrow>
        verify_file (map csv_of recs @ later_lines) = Inr (VerificationFailed j stored expected)"
    by (simp add: verify_file_def verify_loop_append)
  have f: "fst (verify_rows (s\<lparr>rows := []\<rparr>)) = (True, 0, [], [])"
    by (simp add: verify_rows_def)
  have g: "verify_file [] = Inr (AllChecksPassed 0)"
    by (simp add: verify_file_def)
  from a b c d e f g show ?thesis
    by blast
qed


text \<open>A two-record example: the first record is stamped by the rule, the second is forged.\<close>

definition demo_good :: "string stored" where
  "demo_good = (''1'', ''2025-01-01T00:00:00Z'', ''+0.019996001'', ''C'',
      make_stamp [] (''2025-01-01T00:00:00Z'' @ ''|'' @ ''+0.019996001'' @ ''|'' @ ''C'')
        ''2025-01-01T00:00:00Z'')"

definition demo_forged :: "string stored" where
  "demo_forged = (''2'', ''2025-01-01T00:00:01Z'', ''+0.021003112'', ''C'', ''forged'')"

definition demo_expected :: string where
  "demo_expected = make_stamp (stored_stamp_of demo_good)
      (''2025-01-01T00:00:01Z'' @ ''|'' @ ''+0.021003112'' @ ''|'' @ ''C'') ''2025-01-01T00:00:01Z''"

definition demo_session :: engine where
  "demo_session = cli_start\<lparr>rows :=
     [(1, ''2025-01-01T00:00:00Z'', ''+0.019996001'', ''C'', stored_stamp_of demo_good, 1000, 1000, 0),
      (2, ''2025-01-01T00:00:01Z'', ''+0.021003112'', ''C'', ''forged'', 1000, 1000, 0)]\<rparr>"

lemma demo_verify_rows: "fst (verify_rows demo_session) = (False, 2, ''forged'', demo_expected)"
  by (simp add: verify_rows_def demo_session_def demo_good_def demo_expected_def
      make_stamp_neq_length)

lemma demo_verify_file:
  "verify_file (map csv_of [demo_good, demo_forged])
     = Inr (VerificationFailed ''2'' ''forged'' demo_expected)"
  by (simp add: verify_file_def csv_of_def demo_good_def demo_forged_def demo_expected_def fstr_def
      make_stamp_neq_length)

theorem verify_replays_chain_witness:
  "\<not> fst (fst (verify_rows demo_session))
   \<and> fst (verify_rows (demo_session\<lparr>rows := rows demo_session @ rows demo_session\<rparr>))
       = (False, 2, ''forged'', demo_expected)
   \<and> verify_file (map csv_of [demo_good, demo_forged])
       = Inr (VerificationFailed ''2'' ''forged'' demo_expected)
   \<and> verify_file (map csv_of [demo_good, demo_forged] @ [Map.empty])
       = Inr (VerificationFailed ''2'' ''forged'' demo_expected)"
proof -
  note chain = verify_replays_chain [of demo_session "[demo_good, demo_forged]" "rows demo_session"
      "''2''" "''forged''" demo_expected "[Map.empty]"]
  have failed: "\<not> fst (fst (verify_rows demo_session))"
    by (simp add: demo_verify_rows)
  with chain have "fst (verify_rows (demo_session\<lparr>rows := rows demo_session @ rows demo_session\<rparr>))
       = fst (verify_rows demo_session)"
    by blast
  then have twice: "fst (verify_rows (demo_session\<lparr>rows := rows demo_session @ rows demo_session\<rparr>))
       = (False, 2, ''forged'', demo_expected)"
    by (simp only: demo_verify_rows)
  from chain demo_verify_file
  have "verify_file (map csv_of [demo_good, demo_forged] @ [Map.empty])
       = Inr (VerificationFailed ''2'' ''forged'' demo_expected)"
    by blast
  with failed twice demo_verify_file show ?thesis
    by blast
qed

subsection \<open>Rows with missing fields\<close>

definition required_fields :: "string list" where
  "required_fields = [''tick_index'', ''time_utc'', ''final_align'', ''band'', ''stamp'']"

text \<open>The first column, in the order \<open>verify_file\<close> reads them, that the dictionary lacks.\<close>

definition first_missing :: "csv_row \<Rightarrow> string option" where
  "first_missing line = find (\<lambda>k. line k = None) required_fields"

text \<open>
  A malformed record in the sense of the specification: one of the five fields is absent, or
  present without a value.
\<close>

definition malformed :: "csv_row \<Rightarrow> bool" where
  "malformed line \<longleftrightarrow> (\<exists>k \<in> set required_fields. line k = None \<or> line k = Some None)"

text \<open>A data line cut after its third column, under the full header.\<close>

definition demo_short_line :: csv_row where
  "demo_short_line =
     [''tick_index'' \<mapsto> Some ''1'', ''time_utc'' \<mapsto> Some ''2025-01-01T00:00:00Z'',
      ''final_align'' \<mapsto> Some ''+0.019996001'', ''band'' \<mapsto> None, ''stamp'' \<mapsto> None]"

text \<open>
  Second lines for the example chain, each as the reader yields it: under a header without
  the \<open>band\<close> column; cut after \<open>tick_index\<close>; cut after \<open>band\<close>; and, under a header that
  lists \<open>stamp\<close> before \<open>band\<close>, cut after a stamp that was computed over the payload ending
  in the text \<open>None\<close>. A third record, forged, follows them.
\<close>

definition demo_no_band_column :: csv_row where
  "demo_no_band_column =
     [''tick_index'' \<mapsto> Some ''1'', ''time_utc'' \<mapsto> Some ''2025-01-01T00:00:00Z'',
      ''final_align'' \<mapsto> Some ''+0.019996001'', ''stamp'' \<mapsto> Some (stored_stamp_of demo_good)]"

definition demo_tick_only :: csv_row where
  "demo_tick_only =
     [''tick_index'' \<mapsto> Some ''2'', ''time_utc'' \<mapsto> None, ''final_align'' \<mapsto> None,
      ''band'' \<mapsto> None, ''stamp'' \<mapsto> None]"

definition demo_no_stamp :: csv_row where
  "demo_no_stamp =
     [''tick_index'' \<mapsto> Some ''2'', ''time_utc'' \<mapsto> Some ''2025-01-01T00:00:01Z'',
      ''final_align'' \<mapsto> Some ''+0.021003112'', ''band'' \<mapsto> Some ''C'', ''stamp'' \<mapsto> None]"

definition demo_none_stamp :: string where
  "demo_none_stamp = make_stamp (stored_stamp_of demo_good)
      (''2025-01-01T00:00:01Z'' @ ''|'' @ ''+0.021003112'' @ ''|'' @ ''None'') ''2025-01-01T00:00:01Z''"

definition demo_none_band :: csv_row where
  "demo_none_band =
     [''tick_index'' \<mapsto> Some ''2'', ''time_utc'' \<mapsto> Some ''2025-01-01T00:00:01Z'',
      ''final_align'' \<mapsto> Some ''+0.021003112'', ''stamp'' \<mapsto> Some demo_none_stamp,
      ''band'' \<mapsto> None]"

definition demo_third :: "string stored" where
  "demo_third = (''3'', ''2025-01-01T00:00:02Z'', ''+0.020100000'', ''C'', ''forged'')"

lemma verify_loop_missing:
  "first_missing line = Some k \<Longrightarrow> verify_loop prev count (line # rest) = Inl (KeyError k)"
  by (auto simp: first_missing_def required_fields_def split: if_splits option.splits)

lemma verify_loop_no_time:
  "first_missing line = None \<Longrightarrow> line ''time_utc'' = Some None
   \<Longrightarrow> verify_loop prev count (line # rest) = Inl AttributeError"
  by (auto simp: first_missing_def required_fields_def split: if_splits option.splits)

lemma verify_loop_mismatch:
  "line ''tick_index'' = Some ti \<Longrightarrow> line ''time_utc'' = Some (Some t)
   \<Longrightarrow> line ''final_align'' = Some fa \<Longrightarrow> line ''band'' = Some b \<Longrightarrow> line ''stamp'' = Some st
   \<Longrightarrow> st \<noteq> Some (make_stamp prev (t @ ''|'' @ fstr fa @ ''|'' @ fstr b) t)
   \<Longrightarrow> verify_loop prev count (line # rest)
       = Inr (VerificationFailed (fstr ti) (fstr st) (make_stamp prev (t @ ''|'' @ fstr fa @ ''|'' @ fstr b) t))"
  by (auto simp: fstr_def Let_def)

lemma verify_loop_match:
  "line ''tick_index'' = Some ti \<Longrightarrow> line ''time_utc'' = Some (Some t)
   \<Longrightarrow> line ''final_align'' = Some fa \<Longrightarrow> line ''band'' = Some b \<Longrightarrow> line ''stamp'' = Some st
   \<Longrightarrow> st = Some (make_stamp prev (t @ ''|'' @ fstr fa @ ''|'' @ fstr b) t)
   \<Longrightarrow> verify_loop prev count (line # rest)
       = verify_loop (make_stamp prev (t @ ''|'' @ fstr fa @ ''|'' @ fstr b) t) (count + 1) rest"
  by (auto simp: fstr_def Let_def)

lemma verify_loop_passed_prefix:
  "replay_from prev pre = Verified n
   \<Longrightarrow> verify_loop prev count (map csv_of pre @ rest)
       = verify_loop (last (prev # map stored_stamp_of pre)) (count + length pre) rest"
proof (induction pre arbitrary: prev count n)
  case Nil
  show ?case by simp
next
  case (Cons r pre)
  obtain i t fa b st where r: "r = (i, t, fa, b, st)"
    by (metis prod_cases5)
  from Cons.prems have ok: "make_stamp prev (t @ ''|'' @ fa @ ''|'' @ b) t = st"
    and "\<exists>m. replay_from st pre = Verified m"
    by (auto simp: r replay_from_Cons split: if_splits replay.splits)
  then obtain m where "replay_from st pre = Verified m"
    by blast
  from Cons.IH [OF this, of "count + 1"] ok show ?case
    by (simp add: r csv_of_def fstr_def Let_def)
qed

text \<open>
  C8, as stated, fails. The scripts define no \<open>MalformedRecordError\<close>. A line that lacks its
  \<open>band\<close> and \<open>stamp\<close> values is a malformed record, and \<open>verify_file\<close> reports it as
  \<open>VERIFICATION FAILED\<close> with the stored stamp \<open>None\<close>: the report of a chain mismatch.
\<close>

theorem malformed_row_counterexample:
  "malformed demo_short_line
   \<and> verify_file [demo_short_line]
       = Inr (VerificationFailed ''1'' ''None''
               (make_stamp [] ''2025-01-01T00:00:00Z|+0.019996001|None'' ''2025-01-01T00:00:00Z''))"
  by (simp add: malformed_def required_fields_def demo_short_line_def verify_file_def fstr_def)

text \<open>
  C8, amended. \<open>verify_file\<close> raises no \<open>MalformedRecordError\<close> and parses no field. If the
  header lacks one of the five columns, the first record raises \<open>KeyError\<close> naming the first
  absent column. Otherwise, at a record that verification reaches after the records before
  it have verified: an absent \<open>time_utc\<close> value raises \<open>AttributeError\<close>; an absent
  \<open>final_align\<close> or \<open>band\<close> value enters the payload as the text \<open>None\<close>, and the record is
  then checked like any other. If its stored stamp is absent, or differs from the stamp
  expected for that payload, verification reports a stamp mismatch with the record's
  \<open>tick_index\<close>, the stored stamp (\<open>None\<close> when absent) and the expected stamp, the report of
  a chain mismatch, and examines no later record. If its stored stamp is the expected one,
  the record passes, missing values or not, and verification goes on with the next record.
\<close>

theorem malformed_row_outcomes:
  assumes "replay_from [] pre = Verified n"
  shows
    "(first_missing line = Some k \<longrightarrow>
        verify_file (line # later_lines) = Inl (KeyError k))
     \<and> (first_missing line = None \<and> line ''time_utc'' = Some None \<longrightarrow>
        verify_file (map csv_of pre @ line # later_lines) = Inl AttributeError)
     \<and> (line ''tick_index'' = Some ti \<and> line ''time_utc'' = Some (Some t)
        \<and> line ''final_align'' = Some fa \<and> line ''band'' = Some b \<and> line ''stamp'' = Some st \<longrightarrow>
        verify_file (map csv_of pre @ line # later_lines)
          = (if st \<noteq> Some (make_stamp (last ([] # map stored_stamp_of pre))
                              (t @ ''|'' @ fstr fa @ ''|'' @ fstr b) t)
             then Inr (VerificationFailed (fstr ti) (fstr st)
                    (make_stamp (last ([] # map stored_stamp_of pre))
                       (t @ ''|'' @ fstr fa @ ''|'' @ fstr b) t))
             else verify_loop (make_stamp (last ([] # map stored_stamp_of pre))
                                 (t @ ''|'' @ fstr fa @ ''|'' @ fstr b) t)
                    (length pre + 1) later_lines))
     \<and> fstr None = ''None''
     \<and> None \<noteq> Some (make_stamp (last ([] # map stored_stamp_of pre))
                        (t @ ''|'' @ fstr fa @ ''|'' @ fstr b) t)"
proof -
  have pre: "verify_file (map csv_of pre @ line # later_lines)
               = verify_loop (last ([] # map stored_stamp_of pre)) (length pre) (line # later_lines)"
    using verify_loop_passed_prefix [OF assms, of 0 "line # later_lines"]
    by (simp add: verify_file_def)
  have a: "first_missing line = Some k \<longrightarrow>
        verify_file (line # later_lines) = Inl (KeyError k)"
    unfolding verify_file_def using verify_loop_missing by blast
  have b: "first_missing line = None \<and> line ''time_utc'' = Some None \<longrightarrow>
        verify_file (map csv_of pre @ line # later_lines) = Inl AttributeError"
    unfolding pre using verify_loop_no_time by blast
  have c: "line ''tick_index'' = Some ti \<and> line ''time_utc'' = Some (Some t)
        \<and> line ''final_align'' = Some fa \<and> line ''band'' = Some b \<and> line ''stamp'' = Some st \<longrightarrow>
        verify_file (map csv_of pre @ line # later_lines)
          = (if st \<noteq> Some (make_stamp (last ([] # map stored_stamp_of pre))
                              (t @ ''|'' @ fstr fa @ ''|'' @ fstr b) t)
             then Inr (VerificationFailed (fstr ti) (fstr st)
                    (make_stamp (last ([] # map stored_stamp_of pre))
                       (t @ ''|'' @ fstr fa @ ''|'' @ fstr b) t))
             else verify_loop (make_stamp (last ([] # map stored_stamp_of pre))
                                 (t @ ''|'' @ fstr fa @ ''|'' @ fstr b) t)
                    (length pre + 1) later_lines)"
  proof (intro impI, elim conjE)
    let ?prev = "last ([] # map stored_stamp_of pre)"
    let ?e = "make_stamp ?prev (t @ ''|'' @ fstr fa @ ''|'' @ fstr b) t"
    assume f: "line ''tick_index'' = Some ti" "line ''time_utc'' = Some (Some t)"
      "line ''final_align'' = Some fa" "line ''band'' = Some b" "line ''stamp'' = Some st"
    show "verify_file (map csv_of pre @ line # later_lines)
          = (if st \<noteq> Some ?e then Inr (VerificationFailed (fstr ti) (fstr st) ?e)
             else verify_loop ?e (length pre + 1) later_lines)"
    proof (cases "st = Some ?e")
      case True
      from verify_loop_match [OF f True, of "length pre" later_lines] True show ?thesis
        unfolding pre by (simp only: simp_thms if_False)
    next
      case False
      from verify_loop_mismatch [OF f False, of "length pre" later_lines] False show ?thesis
        unfolding pre by (simp only: simp_thms if_True)
    qed
  qed
  have d: "fstr None = ''None''"
    by (simp add: fstr_def)
  from a b c d show ?thesis
    by blast
qed

theorem malformed_row_outcomes_witness:
  "replay_from [] [demo_good] = Verified 1
   \<and> first_missing demo_no_band_column = Some ''band''
   \<and> verify_file [demo_no_band_column, demo_no_band_column] = Inl (KeyError ''band'')
   \<and> first_missing demo_tick_only = None
   \<and> verify_file (map csv_of [demo_good] @ demo_tick_only # [csv_of demo_third]) = Inl AttributeError
   \<and> verify_file (map csv_of [demo_good] @ demo_no_stamp # [csv_of demo_third])
       = Inr (VerificationFailed ''2'' ''None''
               (make_stamp (stored_stamp_of demo_good)
                  ''2025-01-01T00:00:01Z|+0.021003112|C'' ''2025-01-01T00:00:01Z''))
   \<and> malformed demo_none_band
   \<and> verify_file (map csv_of [demo_good] @ demo_none_band # [csv_of demo_third])
       = Inr (VerificationFailed ''3'' ''forged''
               (make_stamp demo_none_stamp
                  ''2025-01-01T00:00:02Z|+0.020100000|C'' ''2025-01-01T00:00:02Z''))
   \<and> verify_file (map csv_of [demo_good] @ demo_none_band # []) = Inr (AllChecksPassed 2)"
proof -
  have ok: "replay_from [] [demo_good] = Verified 1"
    by (simp add: demo_good_def replay_from_Cons replay_from_Nil)
  have prev: "last ([] # map stored_stamp_of [demo_good]) = stored_stamp_of demo_good"
    by simp
  have m1: "first_missing demo_no_band_column = Some ''band''"
    by (simp add: first_missing_def required_fields_def demo_no_band_column_def)
  have m2: "first_missing demo_tick_only = None" "demo_tick_only ''time_utc'' = Some None"
    by (simp_all add: first_missing_def required_fields_def demo_tick_only_def)
  have m3: "demo_no_stamp ''tick_index'' = Some (Some ''2'')"
    "demo_no_stamp ''time_utc'' = Some (Some ''2025-01-01T00:00:01Z'')"
    "demo_no_stamp ''final_align'' = Some (Some ''+0.021003112'')"
    "demo_no_stamp ''band'' = Some (Some ''C'')" "demo_no_stamp ''stamp'' = Some None"
    by (simp_all add: demo_no_stamp_def)
  have m4: "demo_none_band ''tick_index'' = Some (Some ''2'')"
    "demo_none_band ''time_utc'' = Some (Some ''2025-01-01T00:00:01Z'')"
    "demo_none_band ''final_align'' = Some (Some ''+0.021003112'')"
    "demo_none_band ''band'' = Some None" "demo_none_band ''stamp'' = Some (Some demo_none_stamp)"
    by (simp_all add: demo_none_band_def)
  have mal: "malformed demo_none_band"
    by (simp add: malformed_def required_fields_def demo_none_band_def)
  from malformed_row_outcomes [OF ok, of demo_no_band_column "''band''" "[demo_no_band_column]"] m1
  have k: "verify_file [demo_no_band_column, demo_no_band_column] = Inl (KeyError ''band'')"
    by blast
  from malformed_row_outcomes [OF ok, of demo_tick_only _ "[csv_of demo_third]"] m2
  have a: "verify_file (map csv_of [demo_good] @ demo_tick_only # [csv_of demo_third]) = Inl AttributeError"
    by blast
  from malformed_row_outcomes [OF ok, of demo_no_stamp _ "[csv_of demo_third]" "Some ''2''"
      "''2025-01-01T00:00:01Z''" "Some ''+0.021003112''" "Some ''C''" None] m3
  have v: "verify_file (map csv_of [demo_good] @ demo_no_stamp # [csv_of demo_third])
       = Inr (VerificationFailed ''2'' ''None''
               (make_stamp (stored_stamp_of demo_good)
                  ''2025-01-01T00:00:01Z|+0.021003112|C'' ''2025-01-01T00:00:01Z''))"
    by (simp add: fstr_def)
  have exp: "make_stamp (last ([] # map stored_stamp_of [demo_good]))
               (''2025-01-01T00:00:01Z'' @ ''|'' @ fstr (Some ''+0.021003112'') @ ''|'' @ fstr None)
               ''2025-01-01T00:00:01Z'' = demo_none_stamp"
    by (simp add: demo_none_stamp_def fstr_def)
  from malformed_row_outcomes [OF ok, of demo_none_band _ "[csv_of demo_third]" "Some ''2''"
      "''2025-01-01T00:00:01Z''" "Some ''+0.021003112''" None "Some demo_none_stamp"] m4
  have "verify_file (map csv_of [demo_good] @ demo_none_band # [csv_of demo_third])
          = verify_loop demo_none_stamp (length [demo_good] + 1) [csv_of demo_third]"
    unfolding exp by simp
  then have p: "verify_file (map csv_of [demo_good] @ demo_none_band # [csv_of demo_third])
       = Inr (VerificationFailed ''3'' ''forged''
               (make_stamp demo_none_stamp
                  ''2025-01-01T00:00:02Z|+0.020100000|C'' ''2025-01-01T00:00:02Z''))"
    by (simp add: csv_of_def demo_third_def fstr_def make_stamp_neq_length)
  from malformed_row_outcomes [OF ok, of demo_none_band _ "[]" "Some ''2''"
      "''2025-01-01T00:00:01Z''" "Some ''+0.021003112''" None "Some demo_none_stamp"] m4
  have "verify_file (map csv_of [demo_good] @ demo_none_band # [])
          = verify_loop demo_none_stamp (length [demo_good] + 1) []"
    unfolding exp by simp
  then have q: "verify_file (map csv_of [demo_good] @ demo_none_band # []) = Inr (AllChecksPassed 2)"
    by simp
  from ok m1 k m2(1) a v mal p q show ?thesis
    by blast
qed

subsection \<open>Tampering with one record\<close>

lemma of_char_below_256: "(of_char c :: nat) < 256"
proof -
  have "(of_char c :: nat) mod 256 < 256"
    by (rule mod_less_divisor) simp
  then show ?thesis
    by (simp only: of_char_mod_256)
qed

lemma byte_of_nat_eq: "a < 256 \<Longrightarrow> b < 256 \<Longrightarrow> (of_nat a :: byte) = of_nat b \<Longrightarrow> a = b"
  by (simp add: word_of_nat_eq_iff take_bit_eq_mod)

lemma two_byte_bounds: "(a::nat) < 256 \<Longrightarrow> 192 + a div 64 < 256 \<and> 128 + a mod 64 < 256"
proof -
  assume "a < 256"
  then have "a \<le> 255" by simp
  then have "a div 64 \<le> 255 div 64"
    by (rule div_le_mono)
  moreover have "a mod 64 < 64"
    by simp
  ultimately show ?thesis
    by simp
qed

lemma div_mod_eq_imp_eq: "(a::nat) div k = b div k \<Longrightarrow> a mod k = b mod k \<Longrightarrow> a = b"
proof -
  assume h: "a div k = b div k" "a mod k = b mod k"
  have "a = a div k * k + a mod k"
    by simp
  also have "\<dots> = b div k * k + b mod k"
    by (simp only: h)
  also have "\<dots> = b"
    by simp
  finally show ?thesis .
qed

lemma utf8_char_one: "(of_char c :: nat) < 128 \<Longrightarrow> utf8_char c = [of_nat (of_char c)]"
  by (simp add: utf8_char_def Let_def)

lemma utf8_char_two:
  "\<not> (of_char c :: nat) < 128
   \<Longrightarrow> utf8_char c = [of_nat (192 + of_char c div 64), of_nat (128 + of_char c mod 64)]"
  by (simp add: utf8_char_def Let_def)

lemma utf8_char_prefix_free:
  assumes "utf8_char c @ xs = utf8_char d @ ys"
  shows "c = d \<and> xs = ys"
proof -
  let ?n = "of_char c :: nat" and ?m = "of_char d :: nat"
  have n: "?n < 256" and m: "?m < 256"
    by (rule of_char_below_256)+
  have hi: "192 + ?n div 64 < 256" "192 + ?m div 64 < 256" "128 + ?n mod 64 < 256" "128 + ?m mod 64 < 256"
    using two_byte_bounds [OF n] two_byte_bounds [OF m] by blast+
  consider (one) "?n < 128" "?m < 128" | (two) "\<not> ?n < 128" "\<not> ?m < 128"
    | (mix1) "?n < 128" "\<not> ?m < 128" | (mix2) "\<not> ?n < 128" "?m < 128"
    by blast
  then show ?thesis
  proof cases
    case one
    from assms have "[of_nat ?n :: byte] @ xs = [of_nat ?m] @ ys"
      by (simp only: utf8_char_one [OF one(1)] utf8_char_one [OF one(2)])
    then have e: "(of_nat ?n :: byte) = of_nat ?m" and r: "xs = ys"
      by (simp_all only: append_Cons append_Nil list.inject)
    from byte_of_nat_eq [OF n m e] have "c = d"
      by (simp only: of_char_eq_iff)
    with r show ?thesis by blast
  next
    case two
    from assms have "[of_nat (192 + ?n div 64) :: byte, of_nat (128 + ?n mod 64)] @ xs
        = [of_nat (192 + ?m div 64), of_nat (128 + ?m mod 64)] @ ys"
      by (simp only: utf8_char_two [OF two(1)] utf8_char_two [OF two(2)])
    then have a: "(of_nat (192 + ?n div 64) :: byte) = of_nat (192 + ?m div 64)"
      and b: "(of_nat (128 + ?n mod 64) :: byte) = of_nat (128 + ?m mod 64)" and r: "xs = ys"
      by (simp_all only: append_Cons append_Nil list.inject)
    from byte_of_nat_eq [OF hi(1) hi(2) a] byte_of_nat_eq [OF hi(3) hi(4) b]
    have "?n div 64 = ?m div 64" "?n mod 64 = ?m mod 64"
      by (simp_all only: add_left_cancel)
    then have "?n = ?m"
      by (rule div_mod_eq_imp_eq)
    then have "c = d"
      by (simp only: of_char_eq_iff)
    with r show ?thesis by blast
  next
    case mix1
    from assms have "[of_nat ?n :: byte] @ xs
        = [of_nat (192 + ?m div 64), of_nat (128 + ?m mod 64)] @ ys"
      by (simp only: utf8_char_one [OF mix1(1)] utf8_char_two [OF mix1(2)])
    then have e: "(of_nat ?n :: byte) = of_nat (192 + ?m div 64)"
      by (simp_all only: append_Cons append_Nil list.inject)
    from byte_of_nat_eq [OF n hi(2) e] mix1(1) show ?thesis
      by linarith
  next
    case mix2
    from assms have "[of_nat (192 + ?n div 64) :: byte, of_nat (128 + ?n mod 64)] @ xs
        = [of_nat ?m] @ ys"
      by (simp only: utf8_char_two [OF mix2(1)] utf8_char_one [OF mix2(2)])
    then have e: "(of_nat (192 + ?n div 64) :: byte) = of_nat ?m"
      by (simp_all only: append_Cons append_Nil list.inject)
    from byte_of_nat_eq [OF hi(1) m e] mix2(2) show ?thesis
      by linarith
  qed
qed

lemma utf8_char_nonempty: "utf8_char c \<noteq> []"
  by (simp add: utf8_char_def Let_def)

lemma encode_utf8_inj: "encode_utf8 s = encode_utf8 s' \<Longrightarrow> s = s'"
proof (induction s arbitrary: s')
  case Nil
  then show ?case
    by (cases s') (simp_all add: encode_utf8_def utf8_char_nonempty)
next
  case (Cons c s)
  show ?case
  proof (cases s')
    case Nil
    with Cons.prems show ?thesis
      by (simp add: encode_utf8_def utf8_char_nonempty)
  next
    case (Cons d s'')
    with Cons.prems have "utf8_char c @ encode_utf8 s = utf8_char d @ encode_utf8 s''"
      by (simp add: encode_utf8_def)
    then have "c = d" "encode_utf8 s = encode_utf8 s''"
      using utf8_char_prefix_free by blast+
    with Cons.IH Cons show ?thesis by simp
  qed
qed

lemma hex_digit_inj: "a < 16 \<Longrightarrow> b < 16 \<Longrightarrow> hex_digit a = hex_digit b \<Longrightarrow> a = b"
proof -
  have d: "distinct hex_chars" and l: "length hex_chars = 16"
    by (simp_all add: hex_chars_def)
  assume "a < 16" "b < 16" "hex_digit a = hex_digit b"
  with d l show "a = b"
    by (simp add: hex_digit_def nth_eq_iff_index_eq)
qed

lemma hex_of_byte_inj: "hex_of_byte x = hex_of_byte y \<Longrightarrow> x = y"
proof -
  assume h: "hex_of_byte x = hex_of_byte y"
  have x: "unat x < 256" and y: "unat y < 256"
    using unsigned_less [of x] unsigned_less [of y] by simp_all
  then have b: "unat x div 16 < 16" "unat y div 16 < 16" "unat x mod 16 < 16" "unat y mod 16 < 16"
    by simp_all
  from h have "hex_digit (unat x div 16) = hex_digit (unat y div 16)"
    and "hex_digit (unat x mod 16) = hex_digit (unat y mod 16)"
    by (simp_all add: hex_of_byte_def)
  with b have "unat x div 16 = unat y div 16" "unat x mod 16 = unat y mod 16"
    by (blast dest: hex_digit_inj)+
  then have "unat x = unat y"
    by (rule div_mod_eq_imp_eq)
  then show "x = y"
    by (simp add: word_unat_eq_iff)
qed

lemma hexdigest_inj: "hexdigest xs = hexdigest ys \<Longrightarrow> xs = ys"
proof (induction xs arbitrary: ys)
  case Nil
  then show ?case
    by (cases ys) (simp_all add: hexdigest_def hex_of_byte_def)
next
  case (Cons x xs)
  show ?case
  proof (cases ys)
    case Nil
    with Cons.prems show ?thesis
      by (simp add: hexdigest_def hex_of_byte_def)
  next
    case (Cons y ys')
    with Cons.prems have "hex_of_byte x = hex_of_byte y" "hexdigest xs = hexdigest ys'"
      by (simp_all add: hexdigest_def hex_of_byte_def)
    with Cons.IH Cons show ?thesis
      by (simp add: hex_of_byte_inj)
  qed
qed


text \<open>
  Two distinct messages with one digest. Whether SHA-256 has such a pair within reach is a
  question of cryptanalysis, not of this program.
\<close>

definition sha256_collision :: "byte list \<Rightarrow> byte list \<Rightarrow> bool" where
  "sha256_collision x y \<longleftrightarrow> x \<noteq> y \<and> sha256 x = sha256 y"

lemma equal_stamps_collide:
  assumes eq: "make_stamp prev pl' t' = make_stamp prev pl t"
    and ne: "pl' \<noteq> pl"
  shows "sha256_collision (encode_utf8 pl') (encode_utf8 pl)
         \<or> sha256_collision (stamp_preimage prev pl' t') (stamp_preimage prev pl t)"
proof (cases "stamp_preimage prev pl' t' = stamp_preimage prev pl t")
  case False
  from eq have "sha256 (stamp_preimage prev pl' t') = sha256 (stamp_preimage prev pl t)"
    by (simp add: make_stamp_eq_spec stamp_spec_def hexdigest_inj)
  with False show ?thesis
    by (simp add: sha256_collision_def)
next
  case True
  have len: "length (hex_text_bytes (sha256 (encode_utf8 pl')))
               = length (hex_text_bytes (sha256 (encode_utf8 pl)))"
    by (simp add: hex_text_bytes_def length_hexdigest length_sha256)
  from True len have "hex_text_bytes (sha256 (encode_utf8 pl')) = hex_text_bytes (sha256 (encode_utf8 pl))"
    by (simp add: stamp_preimage_def)
  then have "encode_utf8 (hexdigest (sha256 (encode_utf8 pl')))
               = encode_utf8 (hexdigest (sha256 (encode_utf8 pl)))"
    by (simp only: utf8_hexdigest)
  then have "sha256 (encode_utf8 pl') = sha256 (encode_utf8 pl)"
    by (blast dest: encode_utf8_inj hexdigest_inj)
  moreover from ne have "encode_utf8 pl' \<noteq> encode_utf8 pl"
    by (blast dest: encode_utf8_inj)
  ultimately show ?thesis
    by (simp add: sha256_collision_def)
qed

text \<open>Replacing the character at one position of one of the three hashed fields.\<close>

datatype field = TimeUtc | FinalAlign | Band

fun tamper :: "field \<Rightarrow> nat \<Rightarrow> char \<Rightarrow> 'i stored \<Rightarrow> 'i stored" where
  "tamper TimeUtc k c (i, t, fa, b, st) = (i, t[k := c], fa, b, st)"
| "tamper FinalAlign k c (i, t, fa, b, st) = (i, t, fa[k := c], b, st)"
| "tamper Band k c (i, t, fa, b, st) = (i, t, fa, b[k := c], st)"

fun changes :: "field \<Rightarrow> nat \<Rightarrow> char \<Rightarrow> 'i stored \<Rightarrow> bool" where
  "changes TimeUtc k c (i, t, fa, b, st) = (k < length t \<and> c \<noteq> t ! k)"
| "changes FinalAlign k c (i, t, fa, b, st) = (k < length fa \<and> c \<noteq> fa ! k)"
| "changes Band k c (i, t, fa, b, st) = (k < length b \<and> c \<noteq> b ! k)"

lemma list_update_differs: "k < length xs \<Longrightarrow> c \<noteq> xs ! k \<Longrightarrow> xs[k := c] \<noteq> xs"
  by (metis nth_list_update_eq)

lemma replay_from_append:
  "replay_from p (xs @ ys) =
     (case replay_from p xs of
        FirstMismatch i s e \<Rightarrow> FirstMismatch i s e
      | Verified m \<Rightarrow>
          (case replay_from (last (p # map stored_stamp_of xs)) ys of
             Verified m' \<Rightarrow> Verified (m + m')
           | FirstMismatch i s e \<Rightarrow> FirstMismatch i s e))"
proof (induction xs arbitrary: p)
  case Nil
  show ?case
    by (simp add: replay_from_Nil split: replay.splits)
next
  case (Cons r xs)
  obtain i t fa b st where r: "r = (i, t, fa, b, st)"
    by (metis prod_cases5)
  show ?case
    using Cons [of st] by (simp add: r replay_from_Cons split: replay.splits)
qed

text \<open>
  Tamper detection, up to collisions of SHA-256. In a chain that verifies, replace one
  character of \<open>time_utc\<close>, \<open>final_align\<close> or \<open>band\<close> in one record. No earlier record is
  reported. Either verification fails at that record, with its \<open>tick_index\<close> and its stored
  stamp, or the replaced field hashes like the original one: two distinct messages, both
  determined by the two records, have the same SHA-256 digest.
\<close>

lemma tamper_detected_unless_sha256_collides:
  assumes valid: "replay_from [] (pre @ r # post) = Verified n"
    and ch: "changes f k c r"
  shows "(replay_from [] (pre @ tamper f k c r # post)
            = FirstMismatch (fst r) (stored_stamp_of r)
                (expected_for (last ([] # map stored_stamp_of pre)) (tamper f k c r))
          \<and> verify_file (map csv_of (pre @ tamper f k c r # post))
            = Inr (VerificationFailed (fst r) (stored_stamp_of r)
                (expected_for (last ([] # map stored_stamp_of pre)) (tamper f k c r))))
         \<or> (\<exists>x y. sha256_collision x y)"
proof -
  let ?prev = "last ([] # map stored_stamp_of pre)"
  obtain i t fa b st where r: "r = (i, t, fa, b, st)"
    by (metis prod_cases5)
  obtain t' fa' b' where r': "tamper f k c r = (i, t', fa', b', st)"
    by (cases f) (simp_all add: r)
  from ch have pl: "t' @ ''|'' @ fa' @ ''|'' @ b' \<noteq> t @ ''|'' @ fa @ ''|'' @ b"
    using r' by (cases f) (auto simp: r list_update_differs)
  from valid obtain m where pre: "replay_from [] pre = Verified m"
    and ok: "make_stamp ?prev (t @ ''|'' @ fa @ ''|'' @ b) t = st"
    by (auto simp: replay_from_append r replay_from_Cons split: replay.splits if_splits)
  show ?thesis
  proof (cases "make_stamp ?prev (t' @ ''|'' @ fa' @ ''|'' @ b') t' = st")
    case True
    with ok have "make_stamp ?prev (t' @ ''|'' @ fa' @ ''|'' @ b') t'
                    = make_stamp ?prev (t @ ''|'' @ fa @ ''|'' @ b) t"
      by simp
    from equal_stamps_collide [OF this pl] show ?thesis
      by blast
  next
    case False
    with pre have "replay_from [] (pre @ tamper f k c r # post)
            = FirstMismatch i st (make_stamp ?prev (t' @ ''|'' @ fa' @ ''|'' @ b') t')"
      by (simp add: replay_from_append r' replay_from_Cons)
    moreover from this
    have "verify_file (map csv_of (pre @ tamper f k c r # post))
            = Inr (VerificationFailed i st (make_stamp ?prev (t' @ ''|'' @ fa' @ ''|'' @ b') t'))"
      by (simp add: verify_file_def verify_loop_replay del: map_append)
    moreover have "expected_for ?prev (tamper f k c r) = make_stamp ?prev (t' @ ''|'' @ fa' @ ''|'' @ b') t'"
      by (simp only: r' expected_for.simps)
    moreover have "fst r = i" "stored_stamp_of r = st"
      by (simp_all add: r)
    ultimately show ?thesis
      by (simp only: simp_thms)
  qed
qed


lemma tamper_demo:
  "replay_from [] [demo_good] = Verified 1
   \<and> changes Band 0 CHR ''D'' demo_good
   \<and> (replay_from [] [tamper Band 0 CHR ''D'' demo_good]
        = FirstMismatch ''1'' (stored_stamp_of demo_good)
            (make_stamp [] ''2025-01-01T00:00:00Z|+0.019996001|D'' ''2025-01-01T00:00:00Z'')
      \<or> (\<exists>x y. sha256_collision x y))"
proof -
  have ok: "replay_from [] ([] @ demo_good # []) = Verified 1"
    by (simp add: demo_good_def replay_from_Cons replay_from_Nil)
  have ch: "changes Band 0 CHR ''D'' demo_good"
    by (simp add: demo_good_def)
  from tamper_detected_unless_sha256_collides [OF ok ch] ok ch show ?thesis
    by (auto simp: demo_good_def)
qed

end
